theory Spec2Isabelle
  imports Main "HOL-Library.Word"
begin

unbundle bit_operations_syntax

section \<open>Buffers and errors\<close>

text \<open>
  MFT.py works on a byte buffer (an \<open>array.array("B")\<close> or a byte string) shared by
  all the views laid over it. A view is the buffer together with the absolute offset
  at which its block starts; every field accessor reads at block offset plus field
  offset. Python integers are unbounded, so the values read from the buffer are
  \<open>nat\<close> (they are never negative) and signed quantities are \<open>int\<close>.
\<close>

type_synonym byte = "8 word"

text \<open>The exceptions that the modelled code raises or catches.\<close>

datatype error =
    OverrunBuffer
  | ParseException
  | ValueError
  | IndexError
  | AttributeError
  | StructError
  | InvalidMFTRecordNumber nat

text \<open>
  Modelled from the spec: the readers of module BinaryParser (class Block), which is
  not part of the source tree. Section 4.1: typed little-endian readers
  \<open>byte(off)\<close>, \<open>word(off)\<close>, \<open>dword(off)\<close>, \<open>qword(off)\<close>, \<open>binary(off, len)\<close>,
  \<open>wstring(off, code_units)\<close>; each fails with OverrunBuffer if the requested range
  is outside the buffer. Offsets here are absolute (block offset already added).
\<close>

fun le_num :: "byte list \<Rightarrow> nat" where
  "le_num [] = 0"
| "le_num (b # bs) = unat b + 256 * le_num bs"

definition unpack_binary :: "byte list \<Rightarrow> nat \<Rightarrow> nat \<Rightarrow> error + byte list" where
  "unpack_binary buf off n =
     (if off + n \<le> length buf then Inr (take n (drop off buf)) else Inl OverrunBuffer)"

definition unpack_le :: "byte list \<Rightarrow> nat \<Rightarrow> nat \<Rightarrow> error + nat" where
  "unpack_le buf off n =
     (case unpack_binary buf off n of Inl e \<Rightarrow> Inl e | Inr bs \<Rightarrow> Inr (le_num bs))"

definition unpack_byte :: "byte list \<Rightarrow> nat \<Rightarrow> error + nat" where
  "unpack_byte buf off = unpack_le buf off 1"

definition unpack_word :: "byte list \<Rightarrow> nat \<Rightarrow> error + nat" where
  "unpack_word buf off = unpack_le buf off 2"

definition unpack_dword :: "byte list \<Rightarrow> nat \<Rightarrow> error + nat" where
  "unpack_dword buf off = unpack_le buf off 4"

definition unpack_qword :: "byte list \<Rightarrow> nat \<Rightarrow> error + nat" where
  "unpack_qword buf off = unpack_le buf off 8"

text \<open>
  Modelled from the spec: \<open>pack_word\<close> of BinaryParser, the one writer (section 3.3:
  fixup rewrites bytes in place). It stores a 16-bit value little-endian at the
  offset; \<open>struct.pack_into\<close> refuses a range outside the buffer and a value that
  does not fit 16 bits.
\<close>

definition pack_word :: "byte list \<Rightarrow> nat \<Rightarrow> nat \<Rightarrow> error + byte list" where
  "pack_word buf off w =
     (if off + 2 \<le> length buf \<and> w < 65536
      then Inr (buf[off := of_nat (w mod 256), off + 1 := of_nat (w div 256)])
      else Inl StructError)"

text \<open>
  A generator yields its items one by one and may raise after some of them: its
  result is the list of items yielded and the exception that ended it, if any.
\<close>

type_synonym 'a gen = "'a list \<times> error option"

text \<open>
  A generator whose loop need not end is run for a number of iterations of its
  loop, its fuel; next to the items yielded the result says how the run stopped:
  the loop ended, an exception was raised, or iterations remain.
\<close>

datatype ending = Finished | Raised error | Pending

section \<open>Runlists\<close>

text \<open>
  \<open>Runentry.__init__\<close> reads the header byte and splits it into the two nibbles;
  the two binary fields follow the header. The record keeps the block offset and
  the header read by the constructor.
\<close>

record runentry =
  re_offset :: nat
  re_header :: nat
  re_offset_length :: nat
  re_length_length :: nat

definition Runentry :: "byte list \<Rightarrow> nat \<Rightarrow> error + runentry" where
  "Runentry buf off =
     (case unpack_byte buf off of
        Inl e \<Rightarrow> Inl e
      | Inr h \<Rightarrow> Inr \<lparr> re_offset = off, re_header = h,
                      re_offset_length = drop_bit 4 h,
                      re_length_length = h AND 0xF \<rparr>)"

definition re_is_valid :: "runentry \<Rightarrow> bool" where
  "re_is_valid e = (re_offset_length e > 0 \<and> re_length_length e > 0)"

definition re_length_binary :: "byte list \<Rightarrow> runentry \<Rightarrow> error + byte list" where
  "re_length_binary buf e = unpack_binary buf (re_offset e + 1) (re_length_length e)"

definition re_offset_binary :: "byte list \<Rightarrow> runentry \<Rightarrow> error + byte list" where
  "re_offset_binary buf e =
     unpack_binary buf (re_offset e + 1 + re_length_length e) (re_offset_length e)"

definition re_size :: "runentry \<Rightarrow> nat" where
  "re_size e = 1 + re_length_length e + re_offset_length e"

text \<open>The loop \<open>for b in ...: ret += b << (8 * count); count += 1\<close>.\<close>

fun lsb_loop :: "int list \<Rightarrow> nat \<Rightarrow> int \<Rightarrow> int" where
  "lsb_loop [] count ret = ret"
| "lsb_loop (b # bs) count ret = lsb_loop bs (count + 1) (ret + push_bit (8 * count) b)"

definition lsb2num :: "byte list \<Rightarrow> int" where
  "lsb2num binary = lsb_loop (map uint binary) 0 0"

definition lsb2signednum :: "byte list \<Rightarrow> error + int" where
  "lsb2signednum binary =
     (if binary = [] then Inl IndexError
      else
        let is_negative = (uint (last binary) AND push_bit 7 1 \<noteq> 0);
            working = (if is_negative then map (\<lambda>b. uint b XOR 0xFF) binary
                       else map uint binary);
            ret = lsb_loop working 0 0
        in Inr (if is_negative then (ret + 1) * (- 1) else ret))"

definition re_offset_value :: "byte list \<Rightarrow> runentry \<Rightarrow> error + int" where
  "re_offset_value buf e =
     (case re_offset_binary buf e of Inl err \<Rightarrow> Inl err | Inr bs \<Rightarrow> lsb2signednum bs)"

definition re_length_value :: "byte list \<Rightarrow> runentry \<Rightarrow> error + int" where
  "re_length_value buf e =
     (case re_length_binary buf e of Inl err \<Rightarrow> Inl err | Inr bs \<Rightarrow> Inr (lsb2num bs))"

text \<open>
  \<open>Runlist._entries\<close>: the while loop, with the entry under the cursor already
  constructed. \<open>length\<close> is \<open>None\<close> or a number; \<open>not length\<close> holds for \<open>None\<close>
  and for 0.
\<close>

definition not_length :: "nat option \<Rightarrow> bool" where
  "not_length len = (case len of None \<Rightarrow> True | Some n \<Rightarrow> n = 0)"

function entries_loop ::
  "byte list \<Rightarrow> nat \<Rightarrow> nat option \<Rightarrow> nat \<Rightarrow> runentry \<Rightarrow> error + runentry list" where
  "entries_loop buf base len off entry =
     (if re_header entry \<noteq> 0
         \<and> (not_length len \<or> off < base + the len)
         \<and> re_is_valid entry
      then
        (case Runentry buf (off + re_size entry) of
           Inl e \<Rightarrow> Inl e
         | Inr entry' \<Rightarrow>
             (case entries_loop buf base len (off + re_size entry) entry' of
                Inl e \<Rightarrow> Inl e
              | Inr ret \<Rightarrow> Inr (entry # ret)))
      else Inr [])"
  by pat_completeness auto
termination
proof (relation "measure (\<lambda>(buf, base, len, off, entry). length buf - off)")
  show "wf (measure (\<lambda>(buf, base, len, off, entry). length buf - off))" by simp
next
  fix buf :: "byte list" and base :: nat and len :: "nat option"
    and off :: nat and entry entry' :: runentry
  assume "Runentry buf (off + re_size entry) = Inr entry'"
  then have "off + re_size entry < length buf"
    by (auto simp: Runentry_def unpack_byte_def unpack_le_def unpack_binary_def
             split: if_splits sum.splits)
  moreover have "0 < re_size entry" by (simp add: re_size_def)
  ultimately show "((buf, base, len, off + re_size entry, entry'), (buf, base, len, off, entry))
        \<in> measure (\<lambda>(buf, base, len, off, entry). length buf - off)"
    by simp
qed

declare entries_loop.simps [simp del]

definition Runlist_entries :: "byte list \<Rightarrow> nat \<Rightarrow> nat option \<Rightarrow> error + runentry list" where
  "Runlist_entries buf base len =
     (case Runentry buf base of
        Inl e \<Rightarrow> Inl e
      | Inr entry \<Rightarrow> entries_loop buf base len base entry)"

text \<open>\<open>Runlist.runs\<close>: the generator over the entries, carrying \<open>last_offset\<close>.\<close>

fun runs_loop :: "byte list \<Rightarrow> int \<Rightarrow> runentry list \<Rightarrow> (int \<times> int) gen" where
  "runs_loop buf last_offset [] = ([], None)"
| "runs_loop buf last_offset (e # es) =
     (case re_offset_value buf e of
        Inl err \<Rightarrow> ([], Some err)
      | Inr d \<Rightarrow>
          (let current_offset = last_offset + d in
           case re_length_value buf e of
             Inl err \<Rightarrow> ([], Some err)
           | Inr current_length \<Rightarrow>
               (case runs_loop buf current_offset es of
                  (ys, r) \<Rightarrow> ((current_offset, current_length) # ys, r))))"

definition runs :: "byte list \<Rightarrow> nat \<Rightarrow> nat option \<Rightarrow> (int \<times> int) gen" where
  "runs buf base len =
     (case Runlist_entries buf base len of
        Inl e \<Rightarrow> ([], Some e)
      | Inr es \<Rightarrow> runs_loop buf 0 es)"

text \<open>
  The decoding rules in the words of section 4.6: an unsigned little-endian
  integer, and a two's-complement little-endian integer sign-extended from its
  byte width.
\<close>

fun unsigned_le :: "byte list \<Rightarrow> int" where
  "unsigned_le [] = 0"
| "unsigned_le (b # bs) = uint b + 256 * unsigned_le bs"

definition twos_complement_le :: "byte list \<Rightarrow> int" where
  "twos_complement_le bs =
     (if unsigned_le bs \<ge> 2 ^ (8 * length bs - 1)
      then unsigned_le bs - 2 ^ (8 * length bs)
      else unsigned_le bs)"

text \<open>The little-endian value of a list of integer digits in base 256 (used in the proofs).\<close>

fun le_int :: "int list \<Rightarrow> int" where
  "le_int [] = 0"
| "le_int (w # ws) = w + 256 * le_int ws"


section \<open>Update sequence fixup\<close>

text \<open>
  \<open>FixupBlock.fixup\<close> rewrites the buffer in place. The model returns the buffer as
  the call leaves it together with the exception that ended the call, if any: an
  exception in the middle of the loop leaves the sectors already patched. \<open>base\<close> is
  the offset of the block in the buffer.
\<close>

fun fixup_loop ::
  "nat \<Rightarrow> nat \<Rightarrow> nat \<Rightarrow> nat list \<Rightarrow> byte list \<Rightarrow> byte list \<times> error option" where
  "fixup_loop base fixup_value_offset fixup_value [] buf = (buf, None)"
| "fixup_loop base fixup_value_offset fixup_value (i # is) buf =
     (let fixup_offset = 512 * (i + 1) - 2 in
      case unpack_word buf (base + fixup_offset) of
        Inl e \<Rightarrow> (buf, Some e)
      | Inr check_value \<Rightarrow>
          if check_value \<noteq> fixup_value
          then fixup_loop base fixup_value_offset fixup_value is buf
          else
            (case unpack_word buf (base + (fixup_value_offset + 2 + 2 * i)) of
               Inl e \<Rightarrow> (buf, Some e)
             | Inr new_value \<Rightarrow>
                 (case pack_word buf (base + fixup_offset) new_value of
                    Inl e \<Rightarrow> (buf, Some e)
                  | Inr buf' \<Rightarrow>
                      (case unpack_word buf' (base + fixup_offset) of
                         Inl e \<Rightarrow> (buf', Some e)
                       | Inr check_value' \<Rightarrow>
                           fixup_loop base fixup_value_offset fixup_value is buf'))))"

definition fixup :: "byte list \<Rightarrow> nat \<Rightarrow> nat \<Rightarrow> nat \<Rightarrow> byte list \<times> error option" where
  "fixup buf base num_fixups fixup_value_offset =
     (case unpack_word buf (base + fixup_value_offset) of
        Inl e \<Rightarrow> (buf, Some e)
      | Inr fixup_value \<Rightarrow>
          fixup_loop base fixup_value_offset fixup_value [0..<num_fixups - 1] buf)"

text \<open>
  The update sequence array holds the sentinel and \<open>num_fixups - 1\<close> replacement
  words, in the bytes \<open>[fixup_value_offset, fixup_value_offset + 2 * num_fixups)\<close> of
  the block; the trailing word of sector \<open>i\<close> is at \<open>512 * (i + 1) - 2\<close>. The
  predicate says that the array overlaps none of the trailing words that the loop
  visits, as in every NTFS layout (the array sits in the record header).
\<close>

definition usa_clear_of_tails :: "nat \<Rightarrow> nat \<Rightarrow> bool" where
  "usa_clear_of_tails num_fixups fixup_value_offset =
     list_all (\<lambda>i. 512 * (i + 1) \<le> fixup_value_offset
                 \<or> fixup_value_offset + 2 * num_fixups \<le> 512 * (i + 1) - 2)
       [0..<num_fixups - 1]"

text \<open>
  The literal records of the fixup scenarios: 1024 bytes with \<open>usa_offset = 0x30\<close> in
  the header word at 4 and \<open>usa_count = 3\<close> in the word at 6, the given update
  sequence array at 0x30 and the given trailing words of the two sectors; zero
  elsewhere.
\<close>

definition fixup_record :: "byte list \<Rightarrow> byte list \<Rightarrow> byte list \<Rightarrow> byte list" where
  "fixup_record usa tail1 tail2 =
     [0, 0, 0, 0, 0x30, 0, 3, 0] @ replicate 0x28 0 @ usa
       @ replicate (0x1FE - 0x30 - length usa) 0 @ tail1
       @ replicate 510 0 @ tail2"

text \<open>
  A 1024-byte record whose update sequence array is declared at offset 510
  (\<open>usa_offset = 0x1FE\<close>, \<open>usa_count = 3\<close>), on top of the trailing word of the
  first sector: the words at 510, 512, 514 are 1, 2, 3 and the trailing word of the
  second sector is 2.
\<close>

definition overlap_record :: "byte list" where
  "overlap_record =
     [0, 0, 0, 0, 0xFE, 0x01, 3, 0] @ replicate 502 0 @ [1, 0, 2, 0, 3, 0]
       @ replicate 506 0 @ [2, 0]"

section \<open>MFT records and attributes\<close>

text \<open>
  An \<open>MFTRecord\<close> is a view of the buffer at an offset. Its constructor reads
  \<open>usa_count\<close> (word at 6) and \<open>usa_offset\<close> (word at 4) and applies fixup; the
  view keeps the buffer as fixup left it. An exception leaves no view.
\<close>

record mftrecord =
  mr_buf :: "byte list"
  mr_offset :: nat

definition MFTRecord :: "byte list \<Rightarrow> nat \<Rightarrow> error + mftrecord" where
  "MFTRecord buf offset =
     (case unpack_word buf (offset + 6) of
        Inl e \<Rightarrow> Inl e
      | Inr usa_count \<Rightarrow>
          (case unpack_word buf (offset + 4) of
             Inl e \<Rightarrow> Inl e
           | Inr usa_offset \<Rightarrow>
               (case fixup buf offset usa_count usa_offset of
                  (buf', Some e) \<Rightarrow> Inl e
                | (buf', None) \<Rightarrow> Inr \<lparr> mr_buf = buf', mr_offset = offset \<rparr>)))"

definition mr_sequence_number :: "mftrecord \<Rightarrow> error + nat" where
  "mr_sequence_number r = unpack_word (mr_buf r) (mr_offset r + 0x10)"

definition mr_attrs_offset :: "mftrecord \<Rightarrow> error + nat" where
  "mr_attrs_offset r = unpack_word (mr_buf r) (mr_offset r + 0x14)"

definition mr_bytes_in_use :: "mftrecord \<Rightarrow> error + nat" where
  "mr_bytes_in_use r = unpack_dword (mr_buf r) (mr_offset r + 0x18)"

definition mr_mft_record_number :: "mftrecord \<Rightarrow> error + nat" where
  "mr_mft_record_number r = unpack_dword (mr_buf r) (mr_offset r + 0x2C)"

text \<open>
  An \<open>Attribute\<close> is a view at an offset. Its constructor reads the non-resident
  flag (byte at 8) and, for a resident attribute, \<open>value_offset\<close> (word at 0x14)
  and \<open>value_length\<close> (dword at 0x10), the arguments of the declaration of the
  field \<open>value\<close>; a non-resident attribute has no field \<open>value\<close>.
\<close>

record attribute =
  at_offset :: nat
  at_non_resident :: nat
  at_value_field :: "(nat \<times> nat) option"

definition Attribute :: "byte list \<Rightarrow> nat \<Rightarrow> error + attribute" where
  "Attribute buf offset =
     (case unpack_byte buf (offset + 8) of
        Inl e \<Rightarrow> Inl e
      | Inr non_resident \<Rightarrow>
          if non_resident > 0
          then Inr \<lparr> at_offset = offset, at_non_resident = non_resident,
                     at_value_field = None \<rparr>
          else
            (case unpack_word buf (offset + 0x14) of
               Inl e \<Rightarrow> Inl e
             | Inr value_offset \<Rightarrow>
                 (case unpack_dword buf (offset + 0x10) of
                    Inl e \<Rightarrow> Inl e
                  | Inr value_length \<Rightarrow>
                      Inr \<lparr> at_offset = offset, at_non_resident = non_resident,
                            at_value_field = Some (value_offset, value_length) \<rparr>)))"

definition at_type :: "byte list \<Rightarrow> attribute \<Rightarrow> error + nat" where
  "at_type buf a = unpack_dword buf (at_offset a)"

text \<open>
  Modelled from the spec: \<open>declare_field\<close> of BinaryParser (section 4.2: a
  declared field is retrievable by its name). The constructor declares the field
  \<open>size\<close>, the dword at 4, and the accessor of a declared field is bound on the
  view itself (the class reads \<open>self._off_size\<close>, which the declaration leaves
  there). The view's own \<open>size\<close> hides the method \<open>size\<close> of the class (lines
  739 to 741, \<open>s + (8 - (s % 8))\<close>), so \<open>a.size()\<close> is the size field as stored.
\<close>

definition at_size :: "byte list \<Rightarrow> attribute \<Rightarrow> error + nat" where
  "at_size buf a = unpack_dword buf (at_offset a + 4)"

definition at_value :: "byte list \<Rightarrow> attribute \<Rightarrow> error + byte list" where
  "at_value buf a =
     (case at_value_field a of
        None \<Rightarrow> Inl AttributeError
      | Some (value_offset, value_length) \<Rightarrow>
          unpack_binary buf (at_offset a + value_offset) value_length)"

text \<open>
  \<open>MFTRecord.attributes\<close>: the generator's while loop at cursor \<open>offset\<close>. The
  condition reads relative to the record (\<open>base\<close>); the attribute is constructed
  at \<open>offset\<close> itself, as the source does. The cursor advances by the size field
  of each attribute, which may be 0: the generator need not end, and the model
  runs at most \<open>fuel\<close> iterations of the loop.
\<close>

fun attributes_loop :: "nat \<Rightarrow> byte list \<Rightarrow> nat \<Rightarrow> nat \<Rightarrow> attribute list \<times> ending" where
  "attributes_loop 0 buf base offset = ([], Pending)"
| "attributes_loop (Suc fuel) buf base offset =
     (case unpack_dword buf (base + offset) of
        Inl e \<Rightarrow> ([], Raised e)
      | Inr t \<Rightarrow>
          if t = 0 \<or> t = 0xFFFFFFFF then ([], Finished)
          else
            (case unpack_dword buf (base + (offset + 4)) of
               Inl e \<Rightarrow> ([], Raised e)
             | Inr s \<Rightarrow>
                 (case unpack_dword buf (base + 0x18) of
                    Inl e \<Rightarrow> ([], Raised e)
                  | Inr bytes_in_use \<Rightarrow>
                      if \<not> offset + s \<le> base + bytes_in_use then ([], Finished)
                      else
                        (case Attribute buf offset of
                           Inl e \<Rightarrow> ([], Raised e)
                         | Inr a \<Rightarrow>
                             (case at_size buf a of
                                Inl e \<Rightarrow> ([], Raised e)
                              | Inr sz \<Rightarrow>
                                  (case attributes_loop fuel buf base (offset + sz) of
                                     (ys, r) \<Rightarrow> (a # ys, r)))))))"

definition attributes :: "nat \<Rightarrow> mftrecord \<Rightarrow> attribute list \<times> ending" where
  "attributes fuel r =
     (case mr_attrs_offset r of
        Inl e \<Rightarrow> ([], Raised e)
      | Inr offset \<Rightarrow> attributes_loop fuel (mr_buf r) (mr_offset r) offset)"

text \<open>
  A 96-byte record: \<open>attrs_offset = 0x30\<close>, \<open>bytes_in_use = 0x45\<close>, one resident
  attribute of type 0x10 at 0x30 with the size field 0x15, zero elsewhere (so
  \<open>usa_count = 0\<close> and fixup patches nothing).
\<close>

definition short_record :: "byte list" where
  "short_record =
     replicate 0x14 0 @ [0x30, 0] @ [0, 0] @ [0x45, 0, 0, 0] @ replicate 0x14 0
       @ [0x10, 0, 0, 0, 0x15, 0, 0, 0] @ replicate 0x28 0"

text \<open>
  Two notions for stating the walk: the value of \<open>a.size()\<close> where it is
  readable, and the condition under which the while loop stops at a cursor.
\<close>

definition size_of :: "byte list \<Rightarrow> attribute \<Rightarrow> nat" where
  "size_of buf a = (case at_size buf a of Inl e \<Rightarrow> 0 | Inr sz \<Rightarrow> sz)"

definition walk_stops :: "byte list \<Rightarrow> nat \<Rightarrow> nat \<Rightarrow> bool" where
  "walk_stops buf base offset =
     (unpack_dword buf (base + offset) = Inr 0
      \<or> unpack_dword buf (base + offset) = Inr 0xFFFFFFFF
      \<or> (case (unpack_dword buf (base + (offset + 4)), unpack_dword buf (base + 0x18)) of
            (Inr s, Inr bytes_in_use) \<Rightarrow> base + bytes_in_use < offset + s
          | _ \<Rightarrow> False))"

section \<open>Filename attributes\<close>

text \<open>
  Modelled from the spec: \<open>unpack_wstring\<close> of BinaryParser (section 3.1 and 4.1):
  \<open>n\<close> UTF-16LE code units at the offset, not NUL-terminated; it fails with
  OverrunBuffer if the range is outside the buffer. A Python string is the list of
  its code units; \<open>ustr\<close> turns an ASCII literal of the source into one.
\<close>

type_synonym ustring = "nat list"

fun le_words :: "byte list \<Rightarrow> nat list" where
  "le_words (lo # hi # bs) = (unat lo + 256 * unat hi) # le_words bs"
| "le_words bs = []"

definition unpack_wstring :: "byte list \<Rightarrow> nat \<Rightarrow> nat \<Rightarrow> error + ustring" where
  "unpack_wstring buf off n =
     (case unpack_binary buf off (2 * n) of Inl e \<Rightarrow> Inl e | Inr bs \<Rightarrow> Inr (le_words bs))"

definition ustr :: "string \<Rightarrow> ustring" where
  "ustr s = map of_char s"

text \<open>
  A \<open>FilenameAttribute\<close> is a view of a buffer at an offset. Its constructor reads
  \<open>filename_length\<close> (byte at 0x40), the length argument of the field \<open>filename\<close>
  at 0x42; the other fields are read when asked for.
\<close>

record fnattr =
  fn_buf :: "byte list"
  fn_offset :: nat
  fn_filename_length :: nat

definition FilenameAttribute :: "byte list \<Rightarrow> nat \<Rightarrow> error + fnattr" where
  "FilenameAttribute buf offset =
     (case unpack_byte buf (offset + 0x40) of
        Inl e \<Rightarrow> Inl e
      | Inr filename_length \<Rightarrow>
          Inr \<lparr> fn_buf = buf, fn_offset = offset, fn_filename_length = filename_length \<rparr>)"

definition fn_mft_parent_reference :: "fnattr \<Rightarrow> error + nat" where
  "fn_mft_parent_reference v = unpack_qword (fn_buf v) (fn_offset v)"

definition fn_filename_type :: "fnattr \<Rightarrow> error + nat" where
  "fn_filename_type v = unpack_byte (fn_buf v) (fn_offset v + 0x41)"

definition fn_filename :: "fnattr \<Rightarrow> error + ustring" where
  "fn_filename v = unpack_wstring (fn_buf v) (fn_offset v + 0x42) (fn_filename_length v)"

text \<open>
  \<open>MFTRecord.filename_information\<close>. The body of the \<open>try\<close>: the resident value,
  the view over it and its \<open>filename_type\<close>; any exception in it is swallowed.
  \<open>fn\<close> is \<open>False\<close> (here \<open>None\<close>) until a view has been parsed. An exception of the
  attribute generator itself is outside the \<open>try\<close> and reaches the caller once the
  attributes yielded before it have been looked at. The result is \<open>None\<close> where
  the \<open>for\<close> loop asks the generator for an attribute beyond its fuel.
\<close>

definition parse_filename_value :: "byte list \<Rightarrow> attribute \<Rightarrow> error + fnattr \<times> nat" where
  "parse_filename_value buf a =
     (case at_value buf a of
        Inl e \<Rightarrow> Inl e
      | Inr val \<Rightarrow>
          (case FilenameAttribute val 0 of
             Inl e \<Rightarrow> Inl e
           | Inr check \<Rightarrow>
               (case fn_filename_type check of
                  Inl e \<Rightarrow> Inl e
                | Inr filename_type \<Rightarrow> Inr (check, filename_type))))"

fun filename_information_loop ::
  "byte list \<Rightarrow> fnattr option \<Rightarrow> attribute list \<Rightarrow> ending
     \<Rightarrow> (error + fnattr option) option" where
  "filename_information_loop buf fn [] ending =
     (case ending of
        Finished \<Rightarrow> Some (Inr fn)
      | Raised e \<Rightarrow> Some (Inl e)
      | Pending \<Rightarrow> None)"
| "filename_information_loop buf fn (a # as) ending =
     (case at_type buf a of
        Inl e \<Rightarrow> Some (Inl e)
      | Inr t \<Rightarrow>
          if t = 0x30
          then
            (case parse_filename_value buf a of
               Inl e \<Rightarrow> filename_information_loop buf fn as ending
             | Inr (check, filename_type) \<Rightarrow>
                 if filename_type = 1 \<or> filename_type = 3
                 then Some (Inr (Some check))
                 else filename_information_loop buf (Some check) as ending)
          else filename_information_loop buf fn as ending)"

definition filename_information :: "nat \<Rightarrow> mftrecord \<Rightarrow> (error + fnattr option) option" where
  "filename_information fuel r =
     (case attributes fuel r of
        (as, ending) \<Rightarrow> filename_information_loop (mr_buf r) None as ending)"

text \<open>
  The selection rule in the words of section 4.3: the views that parse, of the
  FILENAME attributes in order; the first one of type Win32 or Win32+DOS, otherwise
  the last one, otherwise nothing.
\<close>

definition parsed_filename_views :: "byte list \<Rightarrow> attribute list \<Rightarrow> (fnattr \<times> nat) list" where
  "parsed_filename_views buf as =
     List.map_filter
       (\<lambda>a. case parse_filename_value buf a of Inl e \<Rightarrow> None | Inr v \<Rightarrow> Some v)
       (filter (\<lambda>a. at_type buf a = Inr 0x30) as)"

definition preferred_view :: "(fnattr \<times> nat) list \<Rightarrow> fnattr option" where
  "preferred_view views =
     (case find (\<lambda>(check, filename_type). filename_type = 1 \<or> filename_type = 3) views of
        Some (check, filename_type) \<Rightarrow> Some check
      | None \<Rightarrow> if views = [] then None else Some (fst (last views)))"

definition has_win32_view :: "(fnattr \<times> nat) list \<Rightarrow> bool" where
  "has_win32_view views =
     list_ex (\<lambda>(check, filename_type). filename_type = 1 \<or> filename_type = 3) views"

section \<open>Path reconstruction\<close>

text \<open>
  An \<open>NTFSFile\<close>: the options of the constructor, with the content of the file
  named by \<open>filename\<close> in place of the name. \<open>filetype\<close> is one of the three of
  section 6.4. A prefix counts when it is neither \<open>None\<close> nor empty.
\<close>

datatype filetype = Mft | Image | Indx

record ntfsfile =
  nf_data :: "byte list"
  nf_filetype :: filetype
  nf_offset :: nat
  nf_clustersize :: nat
  nf_prefix :: "ustring option"

definition has_prefix :: "ntfsfile \<Rightarrow> bool" where
  "has_prefix f = (case nf_prefix f of None \<Rightarrow> False | Some p \<Rightarrow> p \<noteq> [])"

definition prefix_of :: "ntfsfile \<Rightarrow> ustring" where
  "prefix_of f = (case nf_prefix f of None \<Rightarrow> [] | Some p \<Rightarrow> p)"

text \<open>
  \<open>_calculate_mftoffset\<close>: the 8 bytes at \<open>offset + 0x30\<close> of the file, read as a
  little-endian QWORD (\<open>struct.unpack_from\<close> refuses fewer than 8 bytes). The value
  depends on the file only, so the attribute \<open>mftoffset\<close> that caches it is not
  part of the state.
\<close>

definition calculate_mftoffset :: "ntfsfile \<Rightarrow> error + nat" where
  "calculate_mftoffset f =
     (let buf = take 8 (drop (nf_offset f + 0x30) (nf_data f)) in
      if length buf < 8 then Inl StructError
      else Inr (nf_offset f + le_num buf * nf_clustersize f))"

text \<open>\<open>mft_get_record_buf\<close>: seek and read 1024 bytes; a read at the end of the file is short or empty.\<close>

definition mft_get_record_buf :: "ntfsfile \<Rightarrow> nat \<Rightarrow> error + byte list" where
  "mft_get_record_buf f number =
     (case nf_filetype f of
        Indx \<Rightarrow> Inr []
      | Mft \<Rightarrow> Inr (take 1024 (drop (number * 1024) (nf_data f)))
      | Image \<Rightarrow>
          (case calculate_mftoffset f of
             Inl e \<Rightarrow> Inl e
           | Inr mftoffset \<Rightarrow> Inr (take 1024 (drop (mftoffset + number * 1024) (nf_data f)))))"

definition mft_get_record :: "ntfsfile \<Rightarrow> nat \<Rightarrow> error + mftrecord" where
  "mft_get_record f number =
     (case mft_get_record_buf f number of
        Inl e \<Rightarrow> Inl e
      | Inr buf \<Rightarrow> if buf = [] then Inl (InvalidMFTRecordNumber number) else MFTRecord buf 0)"

text \<open>The string literals of \<open>mft_record_build_path\<close>; 0x5C is the backslash.\<close>

definition path_root :: ustring where "path_root = 0x5C # ustr ''.''"
definition path_unknown :: ustring where "path_unknown = 0x5C # ustr ''??''"
definition path_unknown_dir :: ustring where "path_unknown_dir = 0x5C # ustr ''??'' @ [0x5C]"
definition path_orphan_dir :: ustring where "path_orphan_dir = 0x5C # ustr ''$OrphanFiles'' @ [0x5C]"
definition path_cycle :: ustring where "path_cycle = 0x5C # ustr ''<CYCLE>''"
definition path_sep :: ustring where "path_sep = [0x5C]"

text \<open>
  \<open>mft_record_build_path\<close>. \<open>cycledetector\<close> is the dictionary of the record
  numbers seen on the call chain; the measure of the recursion is the number of
  record numbers (32-bit values) not yet in it. \<open>fuel\<close> is the fuel of each
  attribute walk that \<open>filename_information\<close> runs; the result is \<open>None\<close> where
  one of them does not return within it.
\<close>

definition build_path_measure :: "nat \<times> ntfsfile \<times> mftrecord \<times> nat set \<Rightarrow> nat" where
  "build_path_measure =
     (\<lambda>(fuel, f, record, cycledetector). card ({..<2 ^ 32} - cycledetector))"

text \<open>
  Modelled from the spec: the decorator \<open>memoize\<close> of BinaryParser, which is not
  part of the source tree. Section 4.8: results are cached under a key made of
  magic, LSN, link count, record number and flags. The function below is the
  decorated body on a cache that holds none of the keys of the chain: along one call
  chain every lookup comes before every store, so no call of the chain is answered
  from the cache.
\<close>

function mft_record_build_path ::
  "nat \<Rightarrow> ntfsfile \<Rightarrow> mftrecord \<Rightarrow> nat set \<Rightarrow> (error + ustring) option" where
  "mft_record_build_path fuel f record cycledetector =
     (case mr_mft_record_number record of
        Inl e \<Rightarrow> Some (Inl e)
      | Inr n \<Rightarrow>
          if n AND 0xFFFFFFFFFFFF = 5
          then Some (Inr (if has_prefix f then prefix_of f else path_root))
          else
            (case filename_information fuel record of
               None \<Rightarrow> None
             | Some (Inl e) \<Rightarrow> Some (Inl e)
             | Some (Inr None) \<Rightarrow> Some (Inr path_unknown)
             | Some (Inr (Some fn)) \<Rightarrow>
                 (case fn_mft_parent_reference fn of
                    Inl e \<Rightarrow> Some (Inl e)
                  | Inr parent_reference \<Rightarrow>
                      (case mft_get_record_buf f (parent_reference AND 0xFFFFFFFFFFFF) of
                         Inl e \<Rightarrow> Some (Inl e)
                       | Inr parent_buf \<Rightarrow>
                           if parent_buf = []
                           then
                             (case fn_filename fn of
                                Inl e \<Rightarrow> Some (Inl e)
                              | Inr name \<Rightarrow> Some (Inr (path_unknown_dir @ name)))
                           else
                             (case MFTRecord parent_buf 0 of
                                Inl e \<Rightarrow> Some (Inl e)
                              | Inr parent \<Rightarrow>
                                  (case mr_sequence_number parent of
                                     Inl e \<Rightarrow> Some (Inl e)
                                   | Inr sequence_number \<Rightarrow>
                                       if sequence_number \<noteq> drop_bit 48 parent_reference
                                       then
                                         (case fn_filename fn of
                                            Inl e \<Rightarrow> Some (Inl e)
                                          | Inr name \<Rightarrow> Some (Inr (path_orphan_dir @ name)))
                                       else if n AND 0xFFFFFFFFFFFF \<in> cycledetector
                                       then Some (Inr ((if has_prefix f then prefix_of f else [])
                                                  @ path_cycle))
                                       else
                                         (case mft_record_build_path fuel f parent
                                                 (insert (n AND 0xFFFFFFFFFFFF) cycledetector) of
                                            None \<Rightarrow> None
                                          | Some (Inl e) \<Rightarrow> Some (Inl e)
                                          | Some (Inr path) \<Rightarrow>
                                              (case fn_filename fn of
                                                 Inl e \<Rightarrow> Some (Inl e)
                                               | Inr name \<Rightarrow>
                                                   Some (Inr (path @ path_sep @ name))))))))))"
  by pat_completeness auto
termination
proof (relation "measure build_path_measure")
  show "wf (measure build_path_measure)" by simp
next
  fix fuel :: nat and f :: ntfsfile and r :: mftrecord and cycledetector :: "nat set"
    and n :: nat
  assume n: "mr_mft_record_number r = Inr n"
    and new: "n AND 0xFFFFFFFFFFFF \<notin> cycledetector"
  have "n < 2 ^ 32"
  proof -
    from n obtain bs where "n = le_num bs" "length bs = 4"
      by (auto simp: mr_mft_record_number_def unpack_dword_def unpack_le_def unpack_binary_def
               split: if_splits)
    moreover have "le_num cs < 2 ^ (8 * length cs)" for cs
    proof (induction cs)
      case Nil show ?case by simp
    next
      case (Cons c cs)
      have "unat c < 256" using unsigned_less[of c, where ?'a = nat] by simp
      with Cons show ?case by (simp add: power_add)
    qed
    ultimately show ?thesis by (metis mult.commute numeral_Bit0 numeral_times_numeral
          semiring_norm(11) semiring_norm(12) semiring_norm(13))
  qed
  moreover have "n AND 0xFFFFFFFFFFFF \<le> n"
  proof -
    have "n AND mask 48 = take_bit 48 n" by (simp add: take_bit_eq_mask)
    moreover have "mask 48 = (0xFFFFFFFFFFFF :: nat)" by (simp add: mask_eq_exp_minus_1)
    moreover have "take_bit 48 n \<le> n" by (rule take_bit_nat_less_eq_self)
    ultimately show ?thesis by simp
  qed
  ultimately have "n AND 0xFFFFFFFFFFFF \<in> {..<2 ^ 32} - cycledetector"
    using new by simp
  then have "card ({..<2 ^ 32} - cycledetector - {n AND 0xFFFFFFFFFFFF})
      < card ({..<(2::nat) ^ 32} - cycledetector)"
    by (intro card_Diff1_less) simp_all
  moreover have "{..<(2::nat) ^ 32} - insert (n AND 0xFFFFFFFFFFFF) cycledetector
      = {..<2 ^ 32} - cycledetector - {n AND 0xFFFFFFFFFFFF}" by blast
  ultimately show "((fuel, f, parent, insert (n AND 0xFFFFFFFFFFFF) cycledetector),
        (fuel, f, r, cycledetector)) \<in> measure build_path_measure" for parent
    by (simp add: build_path_measure_def)
qed

declare mft_record_build_path.simps [simp del]

section \<open>Index nodes\<close>

text \<open>
  A \<open>datetime\<close> is the number of microseconds since 0001-01-01T00:00:00; naive
  datetimes compare as these numbers do. \<open>recent_date\<close> is 1990-01-01 and
  \<open>future_date\<close> is 2025-01-01 (days 726467 and 739251 after day one).
\<close>

type_synonym datetime = int

definition recent_date :: datetime where
  "recent_date = 726467 * 86400000000"

definition future_date :: datetime where
  "future_date = 739251 * 86400000000"

text \<open>
  The conversion of a FILETIME to a datetime (\<open>unpack_filetime\<close>) belongs to
  BinaryParser and is a parameter \<open>conv\<close> of everything that reads a timestamp:
  \<open>None\<close> stands for the ValueError of a value that has no datetime.
\<close>

definition unpack_filetime :: "(nat \<Rightarrow> datetime option) \<Rightarrow> byte list \<Rightarrow> nat \<Rightarrow> error + datetime" where
  "unpack_filetime conv buf off =
     (case unpack_qword buf off of
        Inl e \<Rightarrow> Inl e
      | Inr q \<Rightarrow> (case conv q of None \<Rightarrow> Inl ValueError | Some d \<Rightarrow> Inr d))"

text \<open>
  Modelled from the spec: the FILETIME conversion of BinaryParser, which is not part
  of the source tree, for the examples. Section 3.1: a count of 100-nanosecond
  intervals since 1601-01-01 (day 584388 after day one), an error outside the
  representable range, which ends with the year 9999.
\<close>

definition filetime_to_datetime :: "nat \<Rightarrow> datetime option" where
  "filetime_to_datetime filetime =
     (let d = 584388 * 86400000000 + int filetime div 10
      in if d < 3652059 * 86400000000 then Some d else None)"

definition fn_created_time :: "(nat \<Rightarrow> datetime option) \<Rightarrow> fnattr \<Rightarrow> error + datetime" where
  "fn_created_time conv v = unpack_filetime conv (fn_buf v) (fn_offset v + 0x8)"

definition fn_modified_time :: "(nat \<Rightarrow> datetime option) \<Rightarrow> fnattr \<Rightarrow> error + datetime" where
  "fn_modified_time conv v = unpack_filetime conv (fn_buf v) (fn_offset v + 0x10)"

definition fn_changed_time :: "(nat \<Rightarrow> datetime option) \<Rightarrow> fnattr \<Rightarrow> error + datetime" where
  "fn_changed_time conv v = unpack_filetime conv (fn_buf v) (fn_offset v + 0x18)"

definition fn_accessed_time :: "(nat \<Rightarrow> datetime option) \<Rightarrow> fnattr \<Rightarrow> error + datetime" where
  "fn_accessed_time conv v = unpack_filetime conv (fn_buf v) (fn_offset v + 0x20)"

text \<open>\<open>FilenameAttribute.__len__\<close>, which decides the truth value of a view.\<close>

definition fn_len :: "fnattr \<Rightarrow> error + nat" where
  "fn_len v =
     (case unpack_byte (fn_buf v) (fn_offset v + 0x40) of
        Inl e \<Rightarrow> Inl e
      | Inr filename_length \<Rightarrow> Inr (0x42 + filename_length * 2))"

text \<open>
  \<open>NTATTR_STANDARD_INDEX_HEADER\<close>: a view at an offset whose constructor reads
  \<open>entry_list_start\<close> (dword at 0) and \<open>entry_list_allocation_end\<close> (dword at 8).
\<close>

record indexnode =
  nh_offset :: nat

definition NTATTR_STANDARD_INDEX_HEADER :: "byte list \<Rightarrow> nat \<Rightarrow> error + indexnode" where
  "NTATTR_STANDARD_INDEX_HEADER buf offset =
     (case unpack_dword buf offset of
        Inl e \<Rightarrow> Inl e
      | Inr entry_list_start \<Rightarrow>
          (case unpack_dword buf (offset + 8) of
             Inl e \<Rightarrow> Inl e
           | Inr entry_list_allocation_end \<Rightarrow> Inr \<lparr> nh_offset = offset \<rparr>))"

definition nh_entry_list_start :: "byte list \<Rightarrow> indexnode \<Rightarrow> error + nat" where
  "nh_entry_list_start buf n = unpack_dword buf (nh_offset n)"

definition nh_entry_list_end :: "byte list \<Rightarrow> indexnode \<Rightarrow> error + nat" where
  "nh_entry_list_end buf n = unpack_dword buf (nh_offset n + 4)"

definition nh_entry_list_allocation_end :: "byte list \<Rightarrow> indexnode \<Rightarrow> error + nat" where
  "nh_entry_list_allocation_end buf n = unpack_dword buf (nh_offset n + 8)"

text \<open>
  \<open>IndexEntry\<close> (and \<open>SlackIndexEntry\<close>, which adds \<open>is_valid\<close>): a view at an
  offset whose constructor reads \<open>filename_information_length\<close> (word at 0xA).
\<close>

record indexentry =
  ie_offset :: nat
  ie_filename_information_length :: nat

definition IndexEntry :: "byte list \<Rightarrow> nat \<Rightarrow> error + indexentry" where
  "IndexEntry buf offset =
     (case unpack_word buf (offset + 0xA) of
        Inl e \<Rightarrow> Inl e
      | Inr filename_information_length \<Rightarrow>
          Inr \<lparr> ie_offset = offset,
                ie_filename_information_length = filename_information_length \<rparr>)"

definition ie_length :: "byte list \<Rightarrow> indexentry \<Rightarrow> error + nat" where
  "ie_length buf e = unpack_word buf (ie_offset e + 8)"

definition ie_filename_information :: "byte list \<Rightarrow> indexentry \<Rightarrow> error + fnattr" where
  "ie_filename_information buf e = FilenameAttribute buf (ie_offset e + 0x10)"

text \<open>
  \<open>NTATTR_STANDARD_INDEX_HEADER.entries\<close>. The cursor advances by the declared
  length of each entry, which may be 0: the generator need not end. The model runs
  at most \<open>fuel\<close> iterations of the while loop and says how it stopped: the loop
  condition failed, an exception was raised, or iterations remain.
\<close>

fun index_entries_loop :: "nat \<Rightarrow> byte list \<Rightarrow> indexnode \<Rightarrow> nat \<Rightarrow> indexentry list \<times> ending" where
  "index_entries_loop 0 buf n offset = ([], Pending)"
| "index_entries_loop (Suc fuel) buf n offset =
     (case nh_entry_list_end buf n of
        Inl err \<Rightarrow> ([], Raised err)
      | Inr entry_list_end \<Rightarrow>
          if \<not> int offset \<le> int entry_list_end - 0x52 then ([], Finished)
          else
            (case IndexEntry buf (nh_offset n + offset) of
               Inl err \<Rightarrow> ([], Raised err)
             | Inr e \<Rightarrow>
                 (case ie_length buf e of
                    Inl err \<Rightarrow> ([], Raised err)
                  | Inr len \<Rightarrow>
                      (case index_entries_loop fuel buf n (offset + len) of
                         (ys, r) \<Rightarrow> (e # ys, r)))))"

definition index_entries :: "nat \<Rightarrow> byte list \<Rightarrow> indexnode \<Rightarrow> indexentry list \<times> ending" where
  "index_entries fuel buf n =
     (case nh_entry_list_start buf n of
        Inl err \<Rightarrow> ([], Raised err)
      | Inr offset \<Rightarrow>
          if offset = 0 then ([], Finished) else index_entries_loop fuel buf n offset)"

definition length_of :: "byte list \<Rightarrow> indexentry \<Rightarrow> nat" where
  "length_of buf e = (case ie_length buf e of Inl err \<Rightarrow> 0 | Inr len \<Rightarrow> len)"

text \<open>
  \<open>SlackIndexEntry.is_valid\<close>. \<open>py_and\<close> is Python's \<open>and\<close> on two tests that
  may raise: the second is not evaluated when the first is false. The bare
  \<open>except\<close> around \<open>filename_information()\<close> swallows every exception; \<open>not fn\<close>
  asks for the length of the view; in the chain of comparisons only ValueError is
  caught.
\<close>

definition py_and :: "error + bool \<Rightarrow> error + bool \<Rightarrow> error + bool" where
  "py_and a b = (case a of Inl e \<Rightarrow> Inl e | Inr t \<Rightarrow> if t then b else Inr False)"

definition after :: "datetime \<Rightarrow> error + datetime \<Rightarrow> error + bool" where
  "after bound t = (case t of Inl e \<Rightarrow> Inl e | Inr d \<Rightarrow> Inr (bound < d))"

definition before :: "datetime \<Rightarrow> error + datetime \<Rightarrow> error + bool" where
  "before bound t = (case t of Inl e \<Rightarrow> Inl e | Inr d \<Rightarrow> Inr (d < bound))"

definition timestamps_in_window :: "(nat \<Rightarrow> datetime option) \<Rightarrow> fnattr \<Rightarrow> error + bool" where
  "timestamps_in_window conv fn =
     py_and (after recent_date (fn_modified_time conv fn))
    (py_and (after recent_date (fn_accessed_time conv fn))
    (py_and (after recent_date (fn_changed_time conv fn))
    (py_and (after recent_date (fn_created_time conv fn))
    (py_and (before future_date (fn_modified_time conv fn))
    (py_and (before future_date (fn_accessed_time conv fn))
    (py_and (before future_date (fn_changed_time conv fn))
            (before future_date (fn_created_time conv fn))))))))"

definition is_valid :: "(nat \<Rightarrow> datetime option) \<Rightarrow> byte list \<Rightarrow> indexentry \<Rightarrow> error + bool" where
  "is_valid conv buf e =
     (case ie_filename_information buf e of
        Inl err \<Rightarrow> Inr False
      | Inr fn \<Rightarrow>
          (case fn_len fn of
             Inl err \<Rightarrow> Inl err
           | Inr l \<Rightarrow>
               if l = 0 then Inr False
               else
                 (case timestamps_in_window conv fn of
                    Inl ValueError \<Rightarrow> Inr False
                  | r \<Rightarrow> r)))"

text \<open>
  Modelled from the spec: the classes of the exceptions, which BinaryParser
  declares. A read outside the buffer raises OverrunBufferException (section 4.1).
  Whether that class derives from ParseException is the parameter
  \<open>overrun_is_parse\<close>: if it does, the handler \<open>except ParseException\<close> receives a
  read overrun; if it does not, the handler \<open>except struct.error\<close>, whose message
  is "Slack entry parsing overran buffer", receives it (section 4.4: terminate on
  buffer overrun).
\<close>

definition inner_handler :: "bool \<Rightarrow> error \<Rightarrow> bool" where
  "inner_handler overrun_is_parse err =
     (err = ParseException \<or> (overrun_is_parse \<and> err = OverrunBuffer))"

definition outer_handler :: "bool \<Rightarrow> error \<Rightarrow> bool" where
  "outer_handler overrun_is_parse err =
     (err = StructError \<or> (\<not> overrun_is_parse \<and> err = OverrunBuffer))"

text \<open>
  \<open>NTATTR_STANDARD_INDEX_HEADER.slack_entries\<close>. One turn of the while loop at
  cursor \<open>offset\<close> either leaves the loop, raises to the caller, yields an entry and
  moves the cursor, or moves the cursor without yielding. The candidate is
  constructed at \<open>offset\<close> itself, as the source does.
\<close>

datatype turn = Leave | Raise error | Yield indexentry nat | Skip nat

text \<open>The body of the inner \<open>try\<close>: the new cursor and the entry, if it is yielded.\<close>

definition slack_candidate ::
  "(nat \<Rightarrow> datetime option) \<Rightarrow> byte list \<Rightarrow> nat \<Rightarrow> error + indexentry \<times> nat" where
  "slack_candidate conv buf offset =
     (case IndexEntry buf offset of
        Inl err \<Rightarrow> Inl err
      | Inr e \<Rightarrow>
          (case is_valid conv buf e of
             Inl err \<Rightarrow> Inl err
           | Inr valid \<Rightarrow>
               if valid
               then
                 (case ie_length buf e of
                    Inl err \<Rightarrow> Inl err
                  | Inr len \<Rightarrow> Inr (e, offset + (if len \<noteq> 0 then len else 1)))
               else Inl ParseException))"

definition slack_turn ::
  "bool \<Rightarrow> (nat \<Rightarrow> datetime option) \<Rightarrow> byte list \<Rightarrow> indexnode \<Rightarrow> nat \<Rightarrow> turn" where
  "slack_turn overrun_is_parse conv buf n offset =
     (case nh_entry_list_allocation_end buf n of
        Inl err \<Rightarrow> if outer_handler overrun_is_parse err then Leave else Raise err
      | Inr entry_list_allocation_end \<Rightarrow>
          if \<not> int offset \<le> int entry_list_allocation_end - 0x52 then Leave
          else
            (case slack_candidate conv buf offset of
               Inr (e, offset') \<Rightarrow> Yield e offset'
             | Inl err \<Rightarrow>
                 if inner_handler overrun_is_parse err then Skip (offset + 1)
                 else if outer_handler overrun_is_parse err then Leave
                 else Raise err))"

text \<open>
  The loop. Next to the entries yielded and the exception, if any, the result lists
  the cursors at which the loop body ran, in order: what the claims about the
  progress of the scan are stated on.
\<close>

definition slack_measure ::
  "bool \<times> (nat \<Rightarrow> datetime option) \<times> byte list \<times> indexnode \<times> nat \<Rightarrow> nat" where
  "slack_measure = (\<lambda>(overrun_is_parse, conv, buf, n, offset).
     case nh_entry_list_allocation_end buf n of
       Inl err \<Rightarrow> 0
     | Inr entry_list_allocation_end \<Rightarrow> entry_list_allocation_end + 1 - offset)"

function slack_loop ::
  "bool \<Rightarrow> (nat \<Rightarrow> datetime option) \<Rightarrow> byte list \<Rightarrow> indexnode \<Rightarrow> nat
     \<Rightarrow> indexentry list \<times> error option \<times> nat list" where
  "slack_loop overrun_is_parse conv buf n offset =
     (case slack_turn overrun_is_parse conv buf n offset of
        Leave \<Rightarrow> ([], None, [])
      | Raise err \<Rightarrow> ([], Some err, [offset])
      | Yield e offset' \<Rightarrow>
          (case slack_loop overrun_is_parse conv buf n offset' of
             (ys, r, cursors) \<Rightarrow> (e # ys, r, offset # cursors))
      | Skip offset' \<Rightarrow>
          (case slack_loop overrun_is_parse conv buf n offset' of
             (ys, r, cursors) \<Rightarrow> (ys, r, offset # cursors)))"
  by pat_completeness auto
termination
proof (relation "measure slack_measure")
  show "wf (measure slack_measure)" by simp
next
  fix overrun_is_parse :: bool and conv :: "nat \<Rightarrow> datetime option" and buf :: "byte list"
    and n :: indexnode and offset offset' :: nat and e :: indexentry
  assume "slack_turn overrun_is_parse conv buf n offset = Yield e offset'"
  then have "\<exists>a. nh_entry_list_allocation_end buf n = Inr a
      \<and> int offset \<le> int a - 0x52 \<and> offset < offset'"
    by (auto simp: slack_turn_def slack_candidate_def
             split: sum.splits if_splits prod.splits)
  then obtain a where a: "nh_entry_list_allocation_end buf n = Inr a"
    and le: "int offset \<le> int a - 0x52" and nxt: "offset < offset'"
    by blast
  from le nxt have "a + 1 - offset' < a + 1 - offset" by linarith
  with a show "((overrun_is_parse, conv, buf, n, offset'), (overrun_is_parse, conv, buf, n, offset))
      \<in> measure slack_measure"
    by (simp add: slack_measure_def)
next
  fix overrun_is_parse :: bool and conv :: "nat \<Rightarrow> datetime option" and buf :: "byte list"
    and n :: indexnode and offset offset' :: nat
  assume "slack_turn overrun_is_parse conv buf n offset = Skip offset'"
  then have "\<exists>a. nh_entry_list_allocation_end buf n = Inr a
      \<and> int offset \<le> int a - 0x52 \<and> offset' = offset + 1"
    by (auto simp: slack_turn_def split: sum.splits if_splits prod.splits)
  then obtain a where a: "nh_entry_list_allocation_end buf n = Inr a"
    and le: "int offset \<le> int a - 0x52" and nxt: "offset' = offset + 1"
    by blast
  from le nxt have "a + 1 - offset' < a + 1 - offset" by linarith
  with a show "((overrun_is_parse, conv, buf, n, offset'), (overrun_is_parse, conv, buf, n, offset))
      \<in> measure slack_measure"
    by (simp add: slack_measure_def)
qed

declare slack_loop.simps [simp del]

definition slack_run ::
  "bool \<Rightarrow> (nat \<Rightarrow> datetime option) \<Rightarrow> byte list \<Rightarrow> indexnode
     \<Rightarrow> indexentry list \<times> error option \<times> nat list" where
  "slack_run overrun_is_parse conv buf n =
     (case nh_entry_list_end buf n of
        Inl err \<Rightarrow> ([], Some err, [])
      | Inr offset \<Rightarrow> slack_loop overrun_is_parse conv buf n offset)"

definition slack_entries ::
  "bool \<Rightarrow> (nat \<Rightarrow> datetime option) \<Rightarrow> byte list \<Rightarrow> indexnode \<Rightarrow> indexentry gen" where
  "slack_entries overrun_is_parse conv buf n =
     (case slack_run overrun_is_parse conv buf n of (ys, r, cursors) \<Rightarrow> (ys, r))"

text \<open>
  A 98-byte index node at offset 0: \<open>entry_list_start = 0x10\<close>,
  \<open>entry_list_end = 0x62\<close>, and one entry at 0x10 whose declared length is 0x1000.
\<close>

definition long_entry_node :: "byte list" where
  "long_entry_node =
     [0x10, 0, 0, 0, 0x62, 0, 0, 0, 0x62, 0, 0, 0, 0, 0, 0, 0]
     @ replicate 8 0 @ [0x00, 0x10, 0, 0] @ replicate 70 0"

text \<open>
  A 104-byte index node at offset 0 with \<open>entry_list_end = 0x0F\<close> and
  \<open>entry_list_allocation_end = 0x68\<close>. At 0x10 lies an entry of length 0x58
  whose FilenameAttribute (at 0x20) has the four timestamps 2010-01-01T00:00:00
  (FILETIME 0x01CA8A755C6E0000) and the name \<open>a\<close>.
\<close>

definition slack_node :: "byte list" where
  "slack_node =
     [0x10, 0, 0, 0, 0x0F, 0, 0, 0, 0x68, 0, 0, 0, 0, 0, 0, 0]
     @ replicate 8 0 @ [0x58, 0, 0x44, 0, 0, 0, 0, 0]
     @ replicate 8 0
     @ [0, 0, 0x6E, 0x5C, 0x75, 0x8A, 0xCA, 0x01]
     @ [0, 0, 0x6E, 0x5C, 0x75, 0x8A, 0xCA, 0x01]
     @ [0, 0, 0x6E, 0x5C, 0x75, 0x8A, 0xCA, 0x01]
     @ [0, 0, 0x6E, 0x5C, 0x75, 0x8A, 0xCA, 0x01]
     @ replicate 24 0
     @ [1, 1, 0x61, 0] @ replicate 4 0"


section \<open>Example records\<close>

text \<open>
  A 1024-byte FILE record for the examples: sequence number \<open>seq\<close>, record number
  \<open>num\<close>, \<open>attrs_offset = 0x30\<close>, \<open>bytes_in_use = 0x100\<close>, no fixups
  (\<open>usa_count = 0\<close>). It holds two FILENAME attributes, one after the other: at
  0x30 one of size 0x20 whose resident value is 4 bytes long, too short for a
  FilenameAttribute, and at 0x50 one of size 0x60 whose value \<open>example_value\<close>
  (at 0x68, 0x44 bytes) names the parent by the 8 bytes \<open>parent\<close>, has the
  filename type \<open>ftype\<close> and the one-letter name \<open>ch\<close>. The end marker
  0xFFFFFFFF follows at 0xB0.
\<close>

definition example_value :: "byte list \<Rightarrow> byte \<Rightarrow> byte \<Rightarrow> byte list" where
  "example_value parent ftype ch = parent @ replicate 0x38 0 @ [1, ftype, ch, 0]"

definition example_head :: "byte \<Rightarrow> byte \<Rightarrow> byte list" where
  "example_head num seq =
     [0x46, 0x49, 0x4C, 0x45] @ replicate 12 0
     @ [seq, 0, 0, 0, 0x30, 0, 0, 0]
     @ [0, 1, 0, 0] @ replicate 16 0
     @ [num, 0, 0, 0]
     @ [0x30, 0, 0, 0, 0x20, 0, 0, 0] @ replicate 8 0 @ [4, 0, 0, 0, 0x18, 0, 0, 0]
     @ replicate 8 0
     @ [0x30, 0, 0, 0, 0x60, 0, 0, 0] @ replicate 8 0 @ [0x44, 0, 0, 0, 0x18, 0, 0, 0]"

definition example_tail :: "byte list" where
  "example_tail = replicate 4 0 @ [0xFF, 0xFF, 0xFF, 0xFF] @ replicate 844 0"

definition example_record :: "byte \<Rightarrow> byte \<Rightarrow> byte list \<Rightarrow> byte \<Rightarrow> byte \<Rightarrow> byte list" where
  "example_record num seq parent ftype ch =
     example_head num seq @ example_value parent ftype ch @ example_tail"




text \<open>
  An MFT file of one record, number \<open>num\<close> at index 0, whose parent reference names
  record 3, beyond the end of the file.
\<close>

definition lone_record :: "byte \<Rightarrow> byte list" where
  "lone_record num = example_record num 1 [3, 0, 0, 0, 0, 0, 1, 0] 1 0x61"

definition lone_file :: "byte \<Rightarrow> ntfsfile" where
  "lone_file num =
     \<lparr> nf_data = lone_record num, nf_filetype = Mft, nf_offset = 0,
       nf_clustersize = 4096, nf_prefix = None \<rparr>"

text \<open>
  The example record without an end: \<open>bytes_in_use\<close> is 0x400 and the second
  attribute, whose name is of type DOS (2), has the size 0x3B0, so that it ends
  where the record ends and no end marker follows it.
\<close>

definition unterminated_record :: "byte list" where
  "unterminated_record =
     (example_record 0 1 [5, 0, 0, 0, 0, 0, 1, 0] 2 0x61) [0x19 := 4, 0x54 := 0xB0, 0x55 := 3]"



section \<open>Verification: runlists\<close>

lemma lsb_loop_le_int: "lsb_loop ws c r = r + 2 ^ (8 * c) * le_int ws"
  by (induction ws arbitrary: c r) (simp_all add: push_bit_eq_mult algebra_simps power_add)

lemma unsigned_le_le_int: "unsigned_le bs = le_int (map uint bs)"
  by (induction bs) simp_all

lemma lsb2num_unsigned: "lsb2num bs = unsigned_le bs"
  by (simp add: lsb2num_def lsb_loop_le_int unsigned_le_le_int)

lemma xor_ff: "uint (b::byte) XOR 0xFF = 255 - uint b"
proof -
  have tb: "take_bit 8 (uint b) = uint b"
    by (rule take_bit_int_eq_self) (use uint_bounded[of b] in simp_all)
  have "take_bit 8 (NOT (uint b)) = take_bit 8 (uint b XOR - 1)"
    by (simp only: bit.xor_one_right)
  also have "\<dots> = take_bit 8 (uint b) XOR take_bit 8 (- 1)"
    by (simp only: take_bit_xor)
  also have "\<dots> = uint b XOR 0xFF"
    by (simp add: tb mask_eq_exp_minus_1)
  finally have "uint b XOR 0xFF = take_bit 8 (NOT (uint b))" by simp
  also have "\<dots> = 255 - uint b"
    by (simp add: take_bit_not_eq_mask_diff tb mask_eq_exp_minus_1)
  finally show ?thesis .
qed

lemma and80: "(uint (b::byte) AND 128 = 0) = (uint b < 128)"
proof -
  have b: "0 \<le> uint b" "uint b < 256" using uint_bounded[of b] by simp_all
  have "(uint b AND 2 ^ 7 = 0) = (\<not> bit (uint b) 7)"
    by (simp only: and_exp_eq_0_iff_not_bit)
  also have "\<dots> = even (uint b div 128)" by (simp add: bit_iff_odd)
  also have "\<dots> = (uint b < 128)" using b by presburger
  finally show ?thesis by simp
qed

lemma unsigned_le_bounds: "0 \<le> unsigned_le bs \<and> unsigned_le bs < 2 ^ (8 * length bs)"
proof (induction bs)
  case Nil show ?case by simp
next
  case (Cons b bs)
  have "uint b < 256" using uint_bounded[of b] by simp
  moreover have "0 \<le> uint b" by simp
  ultimately show ?case using Cons by (simp add: power_add) 
qed

lemma le_int_complement:
  "le_int (map (\<lambda>b::byte. uint b XOR 0xFF) bs) = 2 ^ (8 * length bs) - 1 - unsigned_le bs"
  by (induction bs) (simp_all add: xor_ff power_add algebra_simps)

lemma unsigned_le_snoc:
  "unsigned_le (bs @ [b]) = unsigned_le bs + 2 ^ (8 * length bs) * uint b"
  by (induction bs) (simp_all add: algebra_simps power_add)

lemma sign_bit_last:
  assumes "bs \<noteq> []"
  shows "(uint (last bs) < 128) = (unsigned_le bs < 2 ^ (8 * length bs - 1))"
proof -
  obtain cs b where bs: "bs = cs @ [b]" using assms by (metis rev_exhaust)
  define M :: int where "M = 2 ^ (8 * length cs)"
  define X where "X = M * uint b"
  have lo: "0 \<le> unsigned_le cs" "unsigned_le cs < M"
    using unsigned_le_bounds[of cs] by (simp_all add: M_def)
  have p: "(2::int) ^ (8 * length bs - 1) = 128 * M"
    by (simp add: bs power_add M_def)
  have mpos: "0 < M" by (simp add: M_def)
  have "(unsigned_le cs + X < 128 * M) = (uint b < 128)"
  proof
    assume a: "unsigned_le cs + X < 128 * M"
    show "uint b < 128"
    proof (rule ccontr)
      assume "\<not> uint b < 128"
      then have "128 \<le> uint b" by simp
      then have "M * 128 \<le> X" unfolding X_def using mpos by (simp only: mult_le_cancel_left_pos)
      then show False using a lo by linarith
    qed
  next
    assume "uint b < 128"
    then have "uint b + 1 \<le> 128" by simp
    then have "M * (uint b + 1) \<le> M * 128" using mpos by (simp only: mult_le_cancel_left_pos)
    then have "X + M \<le> 128 * M" unfolding X_def by (simp add: algebra_simps)
    then show "unsigned_le cs + X < 128 * M" using lo by linarith
  qed
  moreover have "unsigned_le bs = unsigned_le cs + X"
    by (simp add: bs unsigned_le_snoc X_def M_def)
  moreover have "last bs = b" by (simp add: bs)
  ultimately show ?thesis by (simp only: p)
qed

lemma lsb2signednum_twos_complement:
  "bs \<noteq> [] \<Longrightarrow> lsb2signednum bs = Inr (twos_complement_le bs)"
  by (simp add: lsb2signednum_def Let_def and80 sign_bit_last lsb_loop_le_int
       le_int_complement twos_complement_le_def unsigned_le_le_int [symmetric] not_less [symmetric])


lemma Runentry_Inr:
  "Runentry buf off = Inr e \<Longrightarrow> off < length buf \<and> re_offset e = off"
  by (auto simp: Runentry_def unpack_byte_def unpack_le_def unpack_binary_def
           split: if_splits sum.splits)

lemma entries_loop_stop:
  "\<not> (re_header entry \<noteq> 0 \<and> (not_length len \<or> off < base + the len) \<and> re_is_valid entry)
   \<Longrightarrow> entries_loop buf base len off entry = Inr []"
  by (subst entries_loop.simps) auto

lemma entries_loop_step:
  "re_header entry \<noteq> 0 \<and> (not_length len \<or> off < base + the len) \<and> re_is_valid entry
   \<Longrightarrow> entries_loop buf base len off entry =
        (case Runentry buf (off + re_size entry) of
           Inl e \<Rightarrow> Inl e
         | Inr entry' \<Rightarrow>
             (case entries_loop buf base len (off + re_size entry) entry' of
                Inl e \<Rightarrow> Inl e
              | Inr ret \<Rightarrow> Inr (entry # ret)))"
  by (subst entries_loop.simps) auto

lemma entries_loop_entries:
  "entries_loop buf base len off entry = Inr es \<Longrightarrow> Runentry buf off = Inr entry \<Longrightarrow>
   e \<in> set es \<Longrightarrow>
   Runentry buf (re_offset e) = Inr e \<and> re_is_valid e \<and> re_offset e + re_size e < length buf"
proof (induction buf base len off entry arbitrary: es rule: entries_loop.induct)
  case (1 buf base len off entry)
  show ?case
  proof (cases "re_header entry \<noteq> 0 \<and> (not_length len \<or> off < base + the len) \<and> re_is_valid entry")
    case False
    with "1.prems" show ?thesis by (simp add: entries_loop_stop)
  next
    case True
    from "1.prems"(1) True obtain entry' ret where
      nxt: "Runentry buf (off + re_size entry) = Inr entry'" and
      rec: "entries_loop buf base len (off + re_size entry) entry' = Inr ret" and
      es: "es = entry # ret"
      by (auto simp: entries_loop_step split: sum.splits)
    show ?thesis
    proof (cases "e = entry")
      case True
      with nxt "1.prems"(2) \<open>re_header entry \<noteq> 0 \<and> _\<close> show ?thesis
        using Runentry_Inr[OF nxt] Runentry_Inr[OF "1.prems"(2)] by simp
    next
      case False
      with es "1.prems"(3) have "e \<in> set ret" by simp
      from "1.IH"[OF True nxt rec nxt this] show ?thesis .
    qed
  qed
qed

lemma entries_loop_walk:
  "entries_loop buf base len off entry = Inr es \<Longrightarrow> Runentry buf off = Inr entry \<Longrightarrow>
   (\<forall>i<length es.
       re_offset (es ! i) = off + sum_list (map re_size (take i es)) \<and>
       Runentry buf (re_offset (es ! i)) = Inr (es ! i) \<and>
       re_header (es ! i) \<noteq> 0 \<and> re_is_valid (es ! i) \<and>
       (not_length len \<or> re_offset (es ! i) < base + the len)) \<and>
   (\<exists>stop. Runentry buf (off + sum_list (map re_size es)) = Inr stop \<and>
       \<not> (re_header stop \<noteq> 0
          \<and> (not_length len \<or> off + sum_list (map re_size es) < base + the len)
          \<and> re_is_valid stop))"
proof (induction buf base len off entry arbitrary: es rule: entries_loop.induct)
  case (1 buf base len off entry)
  show ?case
  proof (cases "re_header entry \<noteq> 0 \<and> (not_length len \<or> off < base + the len) \<and> re_is_valid entry")
    case False
    with "1.prems" show ?thesis by (simp add: entries_loop_stop)
  next
    case True
    from "1.prems"(1) True obtain entry' ret where
      nxt: "Runentry buf (off + re_size entry) = Inr entry'" and
      rec: "entries_loop buf base len (off + re_size entry) entry' = Inr ret" and
      es: "es = entry # ret"
      by (auto simp: entries_loop_step split: sum.splits)
    note ih = "1.IH"[OF True nxt rec nxt]
    have eo: "re_offset entry = off" using Runentry_Inr[OF "1.prems"(2)] by simp
    have ihj: "re_offset (ret ! j) = off + re_size entry + sum_list (map re_size (take j ret)) \<and>
       Runentry buf (re_offset (ret ! j)) = Inr (ret ! j) \<and>
       re_header (ret ! j) \<noteq> 0 \<and> re_is_valid (ret ! j) \<and>
       (not_length len \<or> re_offset (ret ! j) < base + the len)" if "j < length ret" for j
      using ih that by blast
    show ?thesis
    proof (intro conjI allI impI)
      fix i assume i: "i < length es"
      show "re_offset (es ! i) = off + sum_list (map re_size (take i es))"
      proof (cases i)
        case 0 then show ?thesis using es eo by simp
      next
        case (Suc j)
        with i es have "j < length ret" by simp
        from ihj[OF this] Suc es show ?thesis by simp
      qed
      show "Runentry buf (re_offset (es ! i)) = Inr (es ! i)"
      proof (cases i)
        case 0 then show ?thesis using es eo "1.prems"(2) by simp
      next
        case (Suc j)
        with i es have "j < length ret" by simp
        from ihj[OF this] have "Runentry buf (re_offset (ret ! j)) = Inr (ret ! j)" by blast
        with Suc es show ?thesis by simp
      qed
      show "re_header (es ! i) \<noteq> 0"
      proof (cases i)
        case 0 then show ?thesis using es True by simp
      next
        case (Suc j)
        with i es have "j < length ret" by simp
        from ihj[OF this] have "re_header (ret ! j) \<noteq> 0" by blast
        with Suc es show ?thesis by simp
      qed
      show "re_is_valid (es ! i)"
      proof (cases i)
        case 0 then show ?thesis using es True by simp
      next
        case (Suc j)
        with i es have "j < length ret" by simp
        from ihj[OF this] have "re_is_valid (ret ! j)" by blast
        with Suc es show ?thesis by simp
      qed
      show "not_length len \<or> re_offset (es ! i) < base + the len"
      proof (cases i)
        case 0 then show ?thesis using es True eo by simp
      next
        case (Suc j)
        with i es have "j < length ret" by simp
        from ihj[OF this] have "not_length len \<or> re_offset (ret ! j) < base + the len" by blast
        with Suc es show ?thesis by simp
      qed
    next
      from ih obtain stop where
        "Runentry buf (off + re_size entry + sum_list (map re_size ret)) = Inr stop"
        "\<not> (re_header stop \<noteq> 0
          \<and> (not_length len \<or> off + re_size entry + sum_list (map re_size ret) < base + the len)
          \<and> re_is_valid stop)" by blast
      then show "\<exists>stop. Runentry buf (off + sum_list (map re_size es)) = Inr stop \<and>
       \<not> (re_header stop \<noteq> 0
          \<and> (not_length len \<or> off + sum_list (map re_size es) < base + the len)
          \<and> re_is_valid stop)"
        using es by (simp add: add.assoc)
    qed
  qed
qed

lemma runs_loop_decode:
  assumes "\<forall>e\<in>set es. re_is_valid e \<and> re_offset e + re_size e < length buf"
    and "runs_loop buf start es = (rs, err)"
  shows "err = None \<and> length rs = length es \<and>
     (\<forall>i<length es. \<exists>ob lb.
         unpack_binary buf (re_offset (es ! i) + 1) (re_length_length (es ! i)) = Inr lb \<and>
         unpack_binary buf (re_offset (es ! i) + 1 + re_length_length (es ! i))
            (re_offset_length (es ! i)) = Inr ob \<and>
         fst (rs ! i) = (if i = 0 then start else fst (rs ! (i - 1))) + twos_complement_le ob \<and>
         snd (rs ! i) = unsigned_le lb)"
  using assms
proof (induction es arbitrary: start rs err)
  case Nil
  then show ?case by simp
next
  case (Cons e es)
  from Cons.prems(1) have v: "re_is_valid e" and r: "re_offset e + re_size e < length buf" by simp_all
  define lb where "lb = take (re_length_length e) (drop (re_offset e + 1) buf)"
  define ob where "ob = take (re_offset_length e) (drop (re_offset e + 1 + re_length_length e) buf)"
  have lbr: "unpack_binary buf (re_offset e + 1) (re_length_length e) = Inr lb"
    using r by (simp add: unpack_binary_def lb_def re_size_def)
  have obr: "unpack_binary buf (re_offset e + 1 + re_length_length e) (re_offset_length e) = Inr ob"
    using r by (simp add: unpack_binary_def ob_def re_size_def)
  have "length ob = re_offset_length e" using r by (simp add: ob_def re_size_def)
  with v have "ob \<noteq> []" by (auto simp: re_is_valid_def)
  then have d: "re_offset_value buf e = Inr (twos_complement_le ob)"
    using obr by (simp add: re_offset_value_def re_offset_binary_def lsb2signednum_twos_complement)
  have l: "re_length_value buf e = Inr (unsigned_le lb)"
    using lbr by (simp add: re_length_value_def re_length_binary_def lsb2num_unsigned)
  obtain ys r' where rec: "runs_loop buf (start + twos_complement_le ob) es = (ys, r')"
    by (cases "runs_loop buf (start + twos_complement_le ob) es") auto
  from Cons.prems(2) d l rec have rs: "rs = (start + twos_complement_le ob, unsigned_le lb) # ys"
    and err: "err = r'" by (simp_all add: Let_def)
  from Cons.prems(1) have "\<forall>e\<in>set es. re_is_valid e \<and> re_offset e + re_size e < length buf" by simp
  from Cons.IH[OF this rec] have ih1: "r' = None" "length ys = length es"
    and ih2: "\<And>i. i < length es \<Longrightarrow> \<exists>ob' lb'.
         unpack_binary buf (re_offset (es ! i) + 1) (re_length_length (es ! i)) = Inr lb' \<and>
         unpack_binary buf (re_offset (es ! i) + 1 + re_length_length (es ! i))
            (re_offset_length (es ! i)) = Inr ob' \<and>
         fst (ys ! i) = (if i = 0 then start + twos_complement_le ob else fst (ys ! (i - 1)))
             + twos_complement_le ob' \<and>
         snd (ys ! i) = unsigned_le lb'"
    by blast+
  show ?case
  proof (intro conjI allI impI)
    show "err = None" using err ih1 by simp
    show "length rs = length (e # es)" using rs ih1 by simp
  next
    fix i assume i: "i < length (e # es)"
    show "\<exists>ob lb.
         unpack_binary buf (re_offset ((e # es) ! i) + 1) (re_length_length ((e # es) ! i)) = Inr lb \<and>
         unpack_binary buf (re_offset ((e # es) ! i) + 1 + re_length_length ((e # es) ! i))
            (re_offset_length ((e # es) ! i)) = Inr ob \<and>
         fst (rs ! i) = (if i = 0 then start else fst (rs ! (i - 1))) + twos_complement_le ob \<and>
         snd (rs ! i) = unsigned_le lb"
    proof (cases i)
      case 0
      then show ?thesis using lbr obr rs by simp
    next
      case (Suc j)
      with i have j: "j < length es" by simp
      from ih2[OF j] show ?thesis using Suc rs by (cases j) auto
    qed
  qed
qed


lemma runs_example: "runs [0x21, 0x18, 0x34, 0x56, 0x00] 0 None = ([(0x5634, 24)], None)"
  by code_simp

text \<open>
  Claim C1. \<open>_entries\<close> returns the entries that lie one after the other from the
  start of the runlist (each at the offset of the one before plus its size), all
  of them with a nonzero header and two nonzero nibbles, up to the first entry
  that has a zero header, a zero nibble or lies past \<open>length\<close>. Decoding yields
  one absolute (offset, length) pair for each of them: the offset is the previous
  pair's offset (0 before the first) plus the two's-complement little-endian value
  of the entry's \<open>offset_length\<close> bytes, and the length is the unsigned
  little-endian value of its \<open>length_length\<close> bytes; no read of an entry's fields
  fails once \<open>_entries\<close> has returned. The bytes 21 18 34 56 00 decode to the one
  run (0x5634, 24).
\<close>

theorem runs_decode:
  "(\<forall>buf base len es rs err.
      Runlist_entries buf base len = Inr es \<and> runs buf base len = (rs, err) \<longrightarrow>
        err = None \<and> length rs = length es \<and>
        (\<forall>i<length es. \<exists>ob lb.
           re_offset (es ! i) = base + sum_list (map re_size (take i es)) \<and>
           Runentry buf (re_offset (es ! i)) = Inr (es ! i) \<and>
           re_header (es ! i) \<noteq> 0 \<and> re_is_valid (es ! i) \<and>
           (not_length len \<or> re_offset (es ! i) < base + the len) \<and>
           unpack_binary buf (re_offset (es ! i) + 1) (re_length_length (es ! i)) = Inr lb \<and>
           unpack_binary buf (re_offset (es ! i) + 1 + re_length_length (es ! i))
              (re_offset_length (es ! i)) = Inr ob \<and>
           fst (rs ! i) = (if i = 0 then 0 else fst (rs ! (i - 1))) + twos_complement_le ob \<and>
           snd (rs ! i) = unsigned_le lb) \<and>
        (\<exists>stop. Runentry buf (base + sum_list (map re_size es)) = Inr stop \<and>
           \<not> (re_header stop \<noteq> 0
              \<and> (not_length len \<or> base + sum_list (map re_size es) < base + the len)
              \<and> re_is_valid stop)))
   \<and> (\<forall>buf base len e. Runlist_entries buf base len = Inl e \<longrightarrow>
          runs buf base len = ([], Some e))
   \<and> runs [0x21, 0x18, 0x34, 0x56, 0x00] 0 None = ([(0x5634, 24)], None)"
proof (intro conjI allI impI)
  fix buf base len es rs err
  assume a: "Runlist_entries buf base len = Inr es \<and> runs buf base len = (rs, err)"
  then obtain entry where first: "Runentry buf base = Inr entry"
    and loop: "entries_loop buf base len base entry = Inr es"
    by (auto simp: Runlist_entries_def split: sum.splits)
  have good: "\<forall>e\<in>set es. re_is_valid e \<and> re_offset e + re_size e < length buf"
    using entries_loop_entries[OF loop first] by blast
  have rl: "runs_loop buf 0 es = (rs, err)" using a by (auto simp: runs_def)
  note dec = runs_loop_decode[OF good rl]
  note walk = entries_loop_walk[OF loop first]
  from dec show "err = None" by blast
  from dec show "length rs = length es" by blast
  from walk show "\<exists>stop. Runentry buf (base + sum_list (map re_size es)) = Inr stop \<and>
           \<not> (re_header stop \<noteq> 0
              \<and> (not_length len \<or> base + sum_list (map re_size es) < base + the len)
              \<and> re_is_valid stop)" by blast
  fix i assume i: "i < length es"
  from walk i have w: "re_offset (es ! i) = base + sum_list (map re_size (take i es)) \<and>
           Runentry buf (re_offset (es ! i)) = Inr (es ! i) \<and>
           re_header (es ! i) \<noteq> 0 \<and> re_is_valid (es ! i) \<and>
           (not_length len \<or> re_offset (es ! i) < base + the len)" by blast
  from dec i obtain ob lb where d:
          "unpack_binary buf (re_offset (es ! i) + 1) (re_length_length (es ! i)) = Inr lb \<and>
           unpack_binary buf (re_offset (es ! i) + 1 + re_length_length (es ! i))
              (re_offset_length (es ! i)) = Inr ob \<and>
           fst (rs ! i) = (if i = 0 then 0 else fst (rs ! (i - 1))) + twos_complement_le ob \<and>
           snd (rs ! i) = unsigned_le lb" by blast
  from w d show "\<exists>ob lb.
           re_offset (es ! i) = base + sum_list (map re_size (take i es)) \<and>
           Runentry buf (re_offset (es ! i)) = Inr (es ! i) \<and>
           re_header (es ! i) \<noteq> 0 \<and> re_is_valid (es ! i) \<and>
           (not_length len \<or> re_offset (es ! i) < base + the len) \<and>
           unpack_binary buf (re_offset (es ! i) + 1) (re_length_length (es ! i)) = Inr lb \<and>
           unpack_binary buf (re_offset (es ! i) + 1 + re_length_length (es ! i))
              (re_offset_length (es ! i)) = Inr ob \<and>
           fst (rs ! i) = (if i = 0 then 0 else fst (rs ! (i - 1))) + twos_complement_le ob \<and>
           snd (rs ! i) = unsigned_le lb" by blast
next
  fix buf base len e
  assume "Runlist_entries buf base len = Inl e"
  then show "runs buf base len = ([], Some e)" by (simp add: runs_def)
next
  show "runs [0x21, 0x18, 0x34, 0x56, 0x00] 0 None = ([(0x5634, 24)], None)"
    by (rule runs_example)
qed

lemma two_runs_entries:
  "Runlist_entries [0x21, 0x10, 0x00, 0x01, 0x11, 0x08, 0x80, 0x00] 0 None =
     Inr [\<lparr> re_offset = 0, re_header = 0x21, re_offset_length = 2, re_length_length = 1 \<rparr>,
          \<lparr> re_offset = 4, re_header = 0x11, re_offset_length = 1, re_length_length = 1 \<rparr>]"
  by code_simp

lemma two_runs_runs:
  "runs [0x21, 0x10, 0x00, 0x01, 0x11, 0x08, 0x80, 0x00] 0 None = ([(256, 16), (128, 8)], None)"
  by code_simp

lemma two_runs_reads:
  "unpack_binary [0x21, 0x10, 0x00, 0x01, 0x11, 0x08, 0x80, 0x00] 5 1 = Inr [0x08]"
  "unpack_binary [0x21, 0x10, 0x00, 0x01, 0x11, 0x08, 0x80, 0x00] 6 1 = Inr [0x80]"
  "Runentry [0x21, 0x10, 0x00, 0x01, 0x11, 0x08, 0x80, 0x00] 7 =
     Inr \<lparr> re_offset = 7, re_header = 0, re_offset_length = 0, re_length_length = 0 \<rparr>"
  by code_simp+

text \<open>
  The runlist 21 10 00 01 11 08 80 00 has two entries, at 0 and at 4, and the zero
  header at 7 ends it: 16 clusters at 0x100, then 8 clusters at 0x100 - 0x80 (the
  delta byte 80 is negative).
\<close>

theorem runs_decode_witness:
  "Runlist_entries [0x21, 0x10, 0x00, 0x01, 0x11, 0x08, 0x80, 0x00] 0 None =
     Inr [\<lparr> re_offset = 0, re_header = 0x21, re_offset_length = 2, re_length_length = 1 \<rparr>,
          \<lparr> re_offset = 4, re_header = 0x11, re_offset_length = 1, re_length_length = 1 \<rparr>]
   \<and> runs [0x21, 0x10, 0x00, 0x01, 0x11, 0x08, 0x80, 0x00] 0 None
        = ([(256, 16), (128, 8)], None)
   \<and> (128 :: int) = 256 + twos_complement_le [0x80]
   \<and> (8 :: int) = unsigned_le [0x08]
   \<and> (\<exists>stop. Runentry [0x21, 0x10, 0x00, 0x01, 0x11, 0x08, 0x80, 0x00] 7 = Inr stop
         \<and> re_header stop = 0)"
proof -
  let ?B = "[0x21, 0x10, 0x00, 0x01, 0x11, 0x08, 0x80, 0x00] :: byte list"
  note w = runs_decode [THEN conjunct1, rule_format, OF conjI [OF two_runs_entries two_runs_runs]]
  from w [THEN conjunct2, THEN conjunct2, THEN conjunct1, rule_format, of 1]
  obtain ob lb where
    "unpack_binary ?B 5 1 = Inr lb" "unpack_binary ?B 6 1 = Inr ob"
    "(128 :: int) = 256 + twos_complement_le ob" "(8 :: int) = unsigned_le lb"
    by (auto simp: numeral_2_eq_2)
  then have "(128 :: int) = 256 + twos_complement_le [0x80]" "(8 :: int) = unsigned_le [0x08]"
    using two_runs_reads(1,2) by simp_all
  moreover have "\<exists>stop. Runentry ?B 7 = Inr stop \<and> re_header stop = 0"
    by (simp add: two_runs_reads)
  ultimately show ?thesis using two_runs_entries two_runs_runs by blast
qed

section \<open>Verification: update sequence fixup\<close>

lemma unpack_word_nth:
  "unpack_word buf off =
     (if off + 2 \<le> length buf then Inr (unat (buf ! off) + 256 * unat (buf ! (off + 1)))
      else Inl OverrunBuffer)"
proof (cases "off + 2 \<le> length buf")
  case False
  then show ?thesis by (simp add: unpack_word_def unpack_le_def unpack_binary_def)
next
  case True
  then have "take 2 (drop off buf) = [buf ! off, buf ! (off + 1)]"
    by (simp add: take_Suc_conv_app_nth numeral_2_eq_2)
  with True show ?thesis by (simp add: unpack_word_def unpack_le_def unpack_binary_def)
qed

lemma unpack_word_bound: "unpack_word buf off = Inr w \<Longrightarrow> w < 65536 \<and> off + 2 \<le> length buf"
proof -
  assume a: "unpack_word buf off = Inr w"
  have "unat (buf ! off) < 256" "unat (buf ! (off + 1)) < 256"
    using unsigned_less[of "buf ! off", where ?'a = nat] unsigned_less[of "buf ! (off + 1)", where ?'a = nat] by simp_all
  with a show ?thesis by (auto simp: unpack_word_nth split: if_splits)
qed

lemma pack_word_length: "pack_word buf off w = Inr buf' \<Longrightarrow> length buf' = length buf"
  by (auto simp: pack_word_def split: if_splits)

lemma pack_word_nth_other:
  "pack_word buf off w = Inr buf' \<Longrightarrow> p \<noteq> off \<Longrightarrow> p \<noteq> off + 1 \<Longrightarrow> buf' ! p = buf ! p"
  by (auto simp: pack_word_def split: if_splits)

lemma unpack_word_pack_same:
  assumes "pack_word buf off w = Inr buf'"
  shows "unpack_word buf' off = Inr w"
proof -
  from assms have r: "off + 2 \<le> length buf" and w: "w < 65536"
    and b: "buf' = buf[off := of_nat (w mod 256), off + 1 := of_nat (w div 256)]"
    by (auto simp: pack_word_def split: if_splits)
  have lo: "unat (of_nat (w mod 256) :: byte) = w mod 256"
    by (simp add: unat_of_nat)
  have "w div 256 < 256" using w by simp
  then have hi: "unat (of_nat (w div 256) :: byte) = w div 256"
    by (simp add: unat_of_nat)
  show ?thesis using r by (simp add: unpack_word_nth b lo hi)
qed

lemma unpack_word_pack_other:
  "pack_word buf off w = Inr buf' \<Longrightarrow> p + 2 \<le> off \<or> off + 2 \<le> p \<Longrightarrow>
   unpack_word buf' p = unpack_word buf p"
  by (auto simp: pack_word_def unpack_word_nth split: if_splits)

lemma pack_word_same_value:
  assumes "unpack_word buf off = Inr w"
  shows "pack_word buf off w = Inr buf"
proof -
  from unpack_word_bound[OF assms] have r: "off + 2 \<le> length buf" and wb: "w < 65536" by simp_all
  from assms r have w: "w = unat (buf ! off) + 256 * unat (buf ! (off + 1))"
    by (simp add: unpack_word_nth)
  have b0: "unat (buf ! off) < 256" using unsigned_less[of "buf ! off", where ?'a = nat] by simp
  have "w mod 256 = unat (buf ! off)" using b0 by (simp add: w)
  then have lo: "(of_nat (w mod 256) :: byte) = buf ! off" by simp
  have "w div 256 = unat (buf ! (off + 1))" using b0 by (simp add: w)
  then have hi: "(of_nat (w div 256) :: byte) = buf ! (off + 1)" by simp
  show ?thesis using r wb by (simp add: pack_word_def lo hi)
qed


lemma fixup_loop_frame:
  "fixup_loop base fvo fv is buf = (F, err) \<Longrightarrow>
   length F = length buf \<and>
   (\<forall>p. (\<forall>i\<in>set is. p \<noteq> base + (512 * (i + 1) - 2) \<and> p \<noteq> base + (512 * (i + 1) - 2) + 1)
        \<longrightarrow> F ! p = buf ! p)"
proof (induction "is" arbitrary: buf)
  case Nil
  then show ?case by simp
next
  case (Cons i "is")
  show ?case
  proof (cases "unpack_word buf (base + (512 * (i + 1) - 2))")
    case (Inl e)
    with Cons.prems show ?thesis by simp
  next
    case (Inr cv)
    show ?thesis
    proof (cases "cv = fv")
      case False
      with Inr Cons.prems have "fixup_loop base fvo fv is buf = (F, err)" by simp
      from Cons.IH[OF this] show ?thesis by simp
    next
      case True
      show ?thesis
      proof (cases "unpack_word buf (base + (fvo + 2 + 2 * i))")
        case (Inl e)
        with Inr True Cons.prems show ?thesis by simp
      next
        case nv: (Inr nv)
        show ?thesis
        proof (cases "pack_word buf (base + (512 * (i + 1) - 2)) nv")
          case (Inl e)
          with Inr True nv Cons.prems show ?thesis by simp
        next
          case pk: (Inr buf')
          note len = pack_word_length[OF pk]
          note oth = pack_word_nth_other[OF pk]
          from unpack_word_pack_same[OF pk] Inr True nv pk Cons.prems
          have "fixup_loop base fvo fv is buf' = (F, err)" by simp
          from Cons.IH[OF this] show ?thesis using len oth by simp
        qed
      qed
    qed
  qed
qed

lemma tail_eq: "512 * (i + 1) - 2 = 510 + 512 * (i::nat)"
  by simp

lemma fixup_loop_frame_word:
  assumes "fixup_loop base fvo fv is buf = (F, err)"
    and "\<And>i. i \<in> set is \<Longrightarrow> p + 2 \<le> base + (510 + 512 * i) \<or> base + (510 + 512 * i) + 2 \<le> p"
  shows "unpack_word F p = unpack_word buf p"
proof -
  from fixup_loop_frame[OF assms(1)] have len: "length F = length buf"
    and fr: "\<And>q. (\<forall>i\<in>set is. q \<noteq> base + (512 * (i + 1) - 2) \<and> q \<noteq> base + (512 * (i + 1) - 2) + 1)
        \<Longrightarrow> F ! q = buf ! q" by blast+
  have "F ! p = buf ! p"
  proof (rule fr, rule ballI)
    fix i assume "i \<in> set is"
    from assms(2)[OF this] show "p \<noteq> base + (512 * (i + 1) - 2) \<and> p \<noteq> base + (512 * (i + 1) - 2) + 1"
      unfolding tail_eq by linarith
  qed
  moreover have "F ! (p + 1) = buf ! (p + 1)"
  proof (rule fr, rule ballI)
    fix i assume "i \<in> set is"
    from assms(2)[OF this] show "p + 1 \<noteq> base + (512 * (i + 1) - 2) \<and> p + 1 \<noteq> base + (512 * (i + 1) - 2) + 1"
      unfolding tail_eq by linarith
  qed
  ultimately show ?thesis by (simp add: unpack_word_nth len)
qed

lemma fixup_loop_twice:
  assumes "fixup_loop base fvo fv is buf = (F, err)"
    and "distinct is"
    and "\<And>i j. i \<in> set is \<Longrightarrow> j \<in> set is \<Longrightarrow>
           fvo + 2 + 2 * i + 2 \<le> 510 + 512 * j \<or> 510 + 512 * j + 2 \<le> fvo + 2 + 2 * i"
  shows "fixup_loop base fvo fv is F = (F, err)"
  using assms
proof (induction "is" arbitrary: buf)
  case Nil
  then show ?case by simp
next
  case (Cons i "is")
  let ?t = "base + (512 * (i + 1) - 2)"
  let ?s = "base + (fvo + 2 + 2 * i)"
  from Cons.prems(2) have dis: "distinct is" and ni: "i \<notin> set is" by simp_all
  have cl: "\<And>i j. i \<in> set is \<Longrightarrow> j \<in> set is \<Longrightarrow>
           fvo + 2 + 2 * i + 2 \<le> 510 + 512 * j \<or> 510 + 512 * j + 2 \<le> fvo + 2 + 2 * i"
    using Cons.prems(3) by simp
  have tails: "?t + 2 \<le> base + (510 + 512 * j) \<or> base + (510 + 512 * j) + 2 \<le> ?t"
    if "j \<in> set is" for j
  proof -
    from that ni have "j \<noteq> i" by auto
    then show ?thesis unfolding tail_eq by linarith
  qed
  have slot: "?s + 2 \<le> base + (510 + 512 * j) \<or> base + (510 + 512 * j) + 2 \<le> ?s"
    if "j \<in> set is" for j
    using Cons.prems(3)[of i j] that by simp
  have slot_self: "?s + 2 \<le> ?t \<or> ?t + 2 \<le> ?s"
    using Cons.prems(3)[of i i] unfolding tail_eq by simp
  show ?case
  proof (cases "unpack_word buf ?t")
    case (Inl e)
    with Cons.prems(1) show ?thesis by auto
  next
    case (Inr cv)
    show ?thesis
    proof (cases "cv = fv")
      case False
      with Inr Cons.prems(1) have rest: "fixup_loop base fvo fv is buf = (F, err)" by simp
      from fixup_loop_frame_word[OF rest tails] Inr have "unpack_word F ?t = Inr cv" by simp
      with False Cons.IH[OF rest dis cl] show ?thesis by simp
    next
      case True
      show ?thesis
      proof (cases "unpack_word buf ?s")
        case (Inl e)
        with Inr True Cons.prems(1) show ?thesis by auto
      next
        case nv: (Inr nv)
        show ?thesis
        proof (cases "pack_word buf ?t nv")
          case (Inl e)
          with Inr True nv Cons.prems(1) show ?thesis by auto
        next
          case pk: (Inr buf')
          note same = unpack_word_pack_same[OF pk]
          from same Inr True nv pk Cons.prems(1)
          have rest: "fixup_loop base fvo fv is buf' = (F, err)" by simp
          note ih = Cons.IH[OF rest dis cl]
          have Ft: "unpack_word F ?t = Inr nv"
            using fixup_loop_frame_word[OF rest tails] same by simp
          have "unpack_word F ?s = unpack_word buf' ?s"
            by (rule fixup_loop_frame_word[OF rest slot])
          also have "\<dots> = unpack_word buf ?s"
            by (rule unpack_word_pack_other[OF pk slot_self])
          finally have Fs: "unpack_word F ?s = Inr nv" using nv by simp
          show ?thesis
          proof (cases "nv = fv")
            case False
            with Ft ih show ?thesis by simp
          next
            case True
            with Ft Fs pack_word_same_value[OF Ft] ih show ?thesis by simp
          qed
        qed
      qed
    qed
  qed
qed


lemma usa_clear_of_tailsD:
  "usa_clear_of_tails n fvo \<Longrightarrow> j < n - 1 \<Longrightarrow>
   512 * (j + 1) \<le> fvo \<or> fvo + 2 * n \<le> 510 + 512 * j"
  by (simp add: usa_clear_of_tails_def list_all_iff)

lemma usa_clear_slots:
  assumes "usa_clear_of_tails n fvo" "i \<in> set [0..<n - 1]" "j \<in> set [0..<n - 1]"
  shows "fvo + 2 + 2 * i + 2 \<le> 510 + 512 * j \<or> 510 + 512 * j + 2 \<le> fvo + 2 + 2 * i"
proof -
  from assms(2,3) have i: "i + 1 < n" and j: "j < n - 1" by auto
  from usa_clear_of_tailsD[OF assms(1) j] i show ?thesis by auto
qed

lemma fixup_twice:
  assumes "usa_clear_of_tails n fvo" and "fixup buf base n fvo = (F, err)"
  shows "fixup F base n fvo = (F, err)"
proof (cases "unpack_word buf (base + fvo)")
  case (Inl e)
  with assms(2) show ?thesis by (auto simp: fixup_def)
next
  case (Inr fv)
  with assms(2) have loop: "fixup_loop base fvo fv [0..<n - 1] buf = (F, err)"
    by (simp add: fixup_def)
  have "unpack_word F (base + fvo) = unpack_word buf (base + fvo)"
  proof (rule fixup_loop_frame_word[OF loop])
    fix i assume "i \<in> set [0..<n - 1]"
    then have i: "i < n - 1" and "i + 1 < n" by auto
    from usa_clear_of_tailsD[OF assms(1) i] \<open>i + 1 < n\<close>
    show "base + fvo + 2 \<le> base + (510 + 512 * i) \<or> base + (510 + 512 * i) + 2 \<le> base + fvo"
      by auto
  qed
  with Inr have "unpack_word F (base + fvo) = Inr fv" by simp
  moreover have "fixup_loop base fvo fv [0..<n - 1] F = (F, err)"
    by (rule fixup_loop_twice[OF loop]) (simp, rule usa_clear_slots[OF assms(1)])
  ultimately show ?thesis by (simp add: fixup_def)
qed

lemma upt_0_2: "[0..<2] = [0, 1]"
  by (simp add: upt_rec)

lemma fixup_scenario_patched:
  assumes "length buf = 1024"
    and "buf ! 0x30 = 0xEF" "buf ! 0x31 = 0xBE"
    and "buf ! 0x32 = 0x22" "buf ! 0x33 = 0x11"
    and "buf ! 0x34 = 0x44" "buf ! 0x35 = 0x33"
    and "buf ! 0x1FE = 0xEF" "buf ! 0x1FF = 0xBE"
    and "buf ! 0x3FE = 0xEF" "buf ! 0x3FF = 0xBE"
  shows "fixup buf 0 3 0x30 = (buf[0x1FE := 0x22, 0x1FF := 0x11, 0x3FE := 0x44, 0x3FF := 0x33], None)"
  using assms
  by (simp add: fixup_def upt_0_2 unpack_word_nth pack_word_def)

lemma fixup_scenario_mismatch:
  assumes "length buf = 1024"
    and "buf ! 0x30 = 0xEF" "buf ! 0x31 = 0xBE"
    and "buf ! 0x1FE = 0xBE" "buf ! 0x1FF = 0xEF"
    and "buf ! 0x3FE = 0xBE" "buf ! 0x3FF = 0xEF"
  shows "fixup buf 0 3 0x30 = (buf, None)"
  using assms
  by (simp add: fixup_def upt_0_2 unpack_word_nth pack_word_def)

lemma fixup_record_length:
  "length usa = 6 \<Longrightarrow> length t1 = 2 \<Longrightarrow> length t2 = 2 \<Longrightarrow> length (fixup_record usa t1 t2) = 1024"
  by (simp add: fixup_record_def)

lemma fixup_record_nth:
  "(fixup_record [u0, u1, u2, u3, u4, u5] [a0, a1] [b0, b1]) ! 0x30 = u0"
  "(fixup_record [u0, u1, u2, u3, u4, u5] [a0, a1] [b0, b1]) ! 0x31 = u1"
  "(fixup_record [u0, u1, u2, u3, u4, u5] [a0, a1] [b0, b1]) ! 0x32 = u2"
  "(fixup_record [u0, u1, u2, u3, u4, u5] [a0, a1] [b0, b1]) ! 0x33 = u3"
  "(fixup_record [u0, u1, u2, u3, u4, u5] [a0, a1] [b0, b1]) ! 0x34 = u4"
  "(fixup_record [u0, u1, u2, u3, u4, u5] [a0, a1] [b0, b1]) ! 0x35 = u5"
  "(fixup_record [u0, u1, u2, u3, u4, u5] [a0, a1] [b0, b1]) ! 0x1FE = a0"
  "(fixup_record [u0, u1, u2, u3, u4, u5] [a0, a1] [b0, b1]) ! 0x1FF = a1"
  "(fixup_record [u0, u1, u2, u3, u4, u5] [a0, a1] [b0, b1]) ! 0x3FE = b0"
  "(fixup_record [u0, u1, u2, u3, u4, u5] [a0, a1] [b0, b1]) ! 0x3FF = b1"
  by (simp_all add: fixup_record_def nth_append)


lemma fixup_loop_post:
  assumes "fixup_loop base fvo fv is buf = (F, None)"
    and "distinct is"
    and "\<And>i j. i \<in> set is \<Longrightarrow> j \<in> set is \<Longrightarrow>
           fvo + 2 + 2 * i + 2 \<le> 510 + 512 * j \<or> 510 + 512 * j + 2 \<le> fvo + 2 + 2 * i"
    and "k \<in> set is"
  shows "\<exists>t. unpack_word buf (base + (512 * (k + 1) - 2)) = Inr t \<and>
             unpack_word F (base + (512 * (k + 1) - 2)) =
               (if t = fv then unpack_word buf (base + (fvo + 2 + 2 * k)) else Inr t)"
  using assms
proof (induction "is" arbitrary: buf)
  case Nil
  then show ?case by simp
next
  case (Cons i "is")
  let ?t = "base + (512 * (i + 1) - 2)"
  let ?s = "base + (fvo + 2 + 2 * i)"
  let ?tk = "base + (512 * (k + 1) - 2)"
  let ?sk = "base + (fvo + 2 + 2 * k)"
  from Cons.prems(2) have dis: "distinct is" and ni: "i \<notin> set is" by simp_all
  have cl: "\<And>i j. i \<in> set is \<Longrightarrow> j \<in> set is \<Longrightarrow>
           fvo + 2 + 2 * i + 2 \<le> 510 + 512 * j \<or> 510 + 512 * j + 2 \<le> fvo + 2 + 2 * i"
    using Cons.prems(3) by simp
  have tails: "?t + 2 \<le> base + (510 + 512 * j) \<or> base + (510 + 512 * j) + 2 \<le> ?t"
    if "j \<in> set is" for j
  proof -
    from that ni have "j \<noteq> i" by auto
    then show ?thesis unfolding tail_eq by linarith
  qed
  have tk_t: "?tk + 2 \<le> ?t \<or> ?t + 2 \<le> ?tk" if "k \<noteq> i"
    using that unfolding tail_eq by linarith
  have sk_t: "?sk + 2 \<le> ?t \<or> ?t + 2 \<le> ?sk"
    using Cons.prems(3)[of k i] Cons.prems(4) unfolding tail_eq by simp
  show ?case
  proof (cases "unpack_word buf ?t")
    case (Inl e)
    with Cons.prems(1) show ?thesis by auto
  next
    case (Inr cv)
    show ?thesis
    proof (cases "cv = fv")
      case False
      with Inr Cons.prems(1) have rest: "fixup_loop base fvo fv is buf = (F, None)" by simp
      show ?thesis
      proof (cases "k = i")
        case True
        from fixup_loop_frame_word[OF rest tails] Inr have "unpack_word F ?t = Inr cv" by simp
        with True False Inr show ?thesis by simp
      next
        case kni: False
        with Cons.prems(4) have "k \<in> set is" by simp
        from Cons.IH[OF rest dis cl this] show ?thesis .
      qed
    next
      case True
      show ?thesis
      proof (cases "unpack_word buf ?s")
        case (Inl e)
        with Inr True Cons.prems(1) show ?thesis by auto
      next
        case nv: (Inr nv)
        show ?thesis
        proof (cases "pack_word buf ?t nv")
          case (Inl e)
          with Inr True nv Cons.prems(1) show ?thesis by auto
        next
          case pk: (Inr buf')
          note same = unpack_word_pack_same[OF pk]
          from same Inr True nv pk Cons.prems(1)
          have rest: "fixup_loop base fvo fv is buf' = (F, None)" by simp
          show ?thesis
          proof (cases "k = i")
            case keq: True
            have "unpack_word F ?t = Inr nv"
              using fixup_loop_frame_word[OF rest tails] same by simp
            with keq True Inr nv show ?thesis by simp
          next
            case kni: False
            with Cons.prems(4) have "k \<in> set is" by simp
            from Cons.IH[OF rest dis cl this] obtain t where
              t: "unpack_word buf' ?tk = Inr t" and
              Ft: "unpack_word F ?tk = (if t = fv then unpack_word buf' ?sk else Inr t)"
              by blast
            have "unpack_word buf' ?tk = unpack_word buf ?tk"
              by (rule unpack_word_pack_other[OF pk tk_t[OF kni]])
            moreover have "unpack_word buf' ?sk = unpack_word buf ?sk"
              by (rule unpack_word_pack_other[OF pk sk_t])
            ultimately show ?thesis using t Ft by simp
          qed
        qed
      qed
    qed
  qed
qed


lemma usa_clear_scenario: "usa_clear_of_tails 3 0x30"
  by (simp add: usa_clear_of_tails_def upt_0_2)

text \<open>
  Claim C2 (amended). When the update sequence array lies clear of the sector tails
  and fixup completes, every visited sector tail that held the sentinel holds the
  replacement word from \<open>usa_offset + 2 + 2 * i\<close>, every other tail is unchanged
  (a mismatch is not an error), and no other byte changes. A 1024-byte record with
  \<open>usa_offset = 0x30\<close>, \<open>usa_count = 3\<close>, sentinel word 0xBEEF (bytes EF BE),
  replacement words 0x1122 and 0x3344 and the bytes EF BE at 0x1FE and 0x3FE has the
  bytes 22 11 at 0x1FE and 44 33 at 0x3FE after fixup.
\<close>

theorem fixup_patches_matching_tails:
  "(\<forall>buf base num_fixups fixup_value_offset F.
      usa_clear_of_tails num_fixups fixup_value_offset \<and>
      fixup buf base num_fixups fixup_value_offset = (F, None) \<longrightarrow>
      (\<exists>fixup_value.
         unpack_word buf (base + fixup_value_offset) = Inr fixup_value \<and>
         length F = length buf \<and>
         (\<forall>i<num_fixups - 1. \<exists>t.
            unpack_word buf (base + (512 * (i + 1) - 2)) = Inr t \<and>
            unpack_word F (base + (512 * (i + 1) - 2)) =
              (if t = fixup_value
               then unpack_word buf (base + (fixup_value_offset + 2 + 2 * i))
               else Inr t)) \<and>
         (\<forall>p. (\<forall>i<num_fixups - 1. p \<noteq> base + (512 * (i + 1) - 2)
                                  \<and> p \<noteq> base + (512 * (i + 1) - 2) + 1)
              \<longrightarrow> F ! p = buf ! p)))
   \<and> (\<forall>buf. length buf = 1024 \<and>
          buf ! 0x30 = 0xEF \<and> buf ! 0x31 = 0xBE \<and>
          buf ! 0x32 = 0x22 \<and> buf ! 0x33 = 0x11 \<and>
          buf ! 0x34 = 0x44 \<and> buf ! 0x35 = 0x33 \<and>
          buf ! 0x1FE = 0xEF \<and> buf ! 0x1FF = 0xBE \<and>
          buf ! 0x3FE = 0xEF \<and> buf ! 0x3FF = 0xBE \<longrightarrow>
          (\<exists>F. fixup buf 0 3 0x30 = (F, None) \<and>
               F ! 0x1FE = 0x22 \<and> F ! 0x1FF = 0x11 \<and>
               F ! 0x3FE = 0x44 \<and> F ! 0x3FF = 0x33))"
proof (intro conjI allI impI)
  fix buf base n fvo F
  assume a: "usa_clear_of_tails n fvo \<and> fixup buf base n fvo = (F, None)"
  then have clear: "usa_clear_of_tails n fvo" and fx: "fixup buf base n fvo = (F, None)"
    by simp_all
  from fx obtain fv where fv: "unpack_word buf (base + fvo) = Inr fv"
    and loop: "fixup_loop base fvo fv [0..<n - 1] buf = (F, None)"
    by (cases "unpack_word buf (base + fvo)") (auto simp: fixup_def)
  note fr = fixup_loop_frame[OF loop]
  have slots: "\<And>i j. i \<in> set [0..<n - 1] \<Longrightarrow> j \<in> set [0..<n - 1] \<Longrightarrow>
           fvo + 2 + 2 * i + 2 \<le> 510 + 512 * j \<or> 510 + 512 * j + 2 \<le> fvo + 2 + 2 * i"
    by (rule usa_clear_slots[OF clear])
  have post: "\<forall>i<n - 1. \<exists>t.
            unpack_word buf (base + (512 * (i + 1) - 2)) = Inr t \<and>
            unpack_word F (base + (512 * (i + 1) - 2)) =
              (if t = fv then unpack_word buf (base + (fvo + 2 + 2 * i)) else Inr t)"
  proof (intro allI impI)
    fix i assume "i < n - 1"
    then have "i \<in> set [0..<n - 1]" by simp
    from fixup_loop_post[OF loop _ slots this]
    show "\<exists>t. unpack_word buf (base + (512 * (i + 1) - 2)) = Inr t \<and>
            unpack_word F (base + (512 * (i + 1) - 2)) =
              (if t = fv then unpack_word buf (base + (fvo + 2 + 2 * i)) else Inr t)"
      by simp
  qed
  have frame: "\<forall>p. (\<forall>i<n - 1. p \<noteq> base + (512 * (i + 1) - 2)
                                  \<and> p \<noteq> base + (512 * (i + 1) - 2) + 1)
              \<longrightarrow> F ! p = buf ! p"
    using fr by simp
  from fv fr post frame
  show "\<exists>fixup_value.
         unpack_word buf (base + fvo) = Inr fixup_value \<and>
         length F = length buf \<and>
         (\<forall>i<n - 1. \<exists>t.
            unpack_word buf (base + (512 * (i + 1) - 2)) = Inr t \<and>
            unpack_word F (base + (512 * (i + 1) - 2)) =
              (if t = fixup_value
               then unpack_word buf (base + (fvo + 2 + 2 * i))
               else Inr t)) \<and>
         (\<forall>p. (\<forall>i<n - 1. p \<noteq> base + (512 * (i + 1) - 2)
                                  \<and> p \<noteq> base + (512 * (i + 1) - 2) + 1)
              \<longrightarrow> F ! p = buf ! p)"
    by blast
next
  fix buf :: "byte list"
  assume "length buf = 1024 \<and>
          buf ! 0x30 = 0xEF \<and> buf ! 0x31 = 0xBE \<and>
          buf ! 0x32 = 0x22 \<and> buf ! 0x33 = 0x11 \<and>
          buf ! 0x34 = 0x44 \<and> buf ! 0x35 = 0x33 \<and>
          buf ! 0x1FE = 0xEF \<and> buf ! 0x1FF = 0xBE \<and>
          buf ! 0x3FE = 0xEF \<and> buf ! 0x3FF = 0xBE"
  then have len: "length buf = 1024" and
    fx: "fixup buf 0 3 0x30 = (buf[0x1FE := 0x22, 0x1FF := 0x11, 0x3FE := 0x44, 0x3FF := 0x33], None)"
    using fixup_scenario_patched[of buf] by simp_all
  show "\<exists>F. fixup buf 0 3 0x30 = (F, None) \<and>
               F ! 0x1FE = 0x22 \<and> F ! 0x1FF = 0x11 \<and>
               F ! 0x3FE = 0x44 \<and> F ! 0x3FF = 0x33"
    unfolding fx using len by simp
qed

theorem fixup_patches_matching_tails_witness:
  "usa_clear_of_tails 3 0x30
   \<and> length (fixup_record [0xEF, 0xBE, 0x22, 0x11, 0x44, 0x33] [0xEF, 0xBE] [0xEF, 0xBE]) = 1024
   \<and> (\<exists>F. fixup (fixup_record [0xEF, 0xBE, 0x22, 0x11, 0x44, 0x33] [0xEF, 0xBE] [0xEF, 0xBE])
                0 3 0x30 = (F, None) \<and>
            F ! 0x1FE = 0x22 \<and> F ! 0x1FF = 0x11 \<and> F ! 0x3FE = 0x44 \<and> F ! 0x3FF = 0x33 \<and>
            length F = 1024)"
proof -
  let ?R = "fixup_record [0xEF, 0xBE, 0x22, 0x11, 0x44, 0x33] [0xEF, 0xBE] [0xEF, 0xBE]"
  have len: "length ?R = 1024" by (simp add: fixup_record_length)
  from fixup_patches_matching_tails [THEN conjunct2, rule_format, of ?R]
  obtain F where F: "fixup ?R 0 3 0x30 = (F, None)"
    "F ! 0x1FE = 0x22" "F ! 0x1FF = 0x11" "F ! 0x3FE = 0x44" "F ! 0x3FF = 0x33"
    using len by (auto simp: fixup_record_nth)
  from fixup_patches_matching_tails [THEN conjunct1, rule_format, of 3 "0x30" ?R 0 F]
    usa_clear_scenario F(1)
  have "length F = length ?R" by blast
  with F len usa_clear_scenario show ?thesis by auto
qed

text \<open>
  Claim C2 as stated: with the sentinel word 0xBEEF at 0x30 (bytes EF BE) and the
  bytes BE EF at 0x1FE and 0x3FE, the trailing words read 0xEFBE, differ from the
  sentinel and are left as they are.
\<close>

theorem fixup_scenario_counterexample:
  "fixup (fixup_record [0xEF, 0xBE, 0x22, 0x11, 0x44, 0x33] [0xBE, 0xEF] [0xBE, 0xEF]) 0 3 0x30
     = (fixup_record [0xEF, 0xBE, 0x22, 0x11, 0x44, 0x33] [0xBE, 0xEF] [0xBE, 0xEF], None)
   \<and> unpack_word (fixup_record [0xEF, 0xBE, 0x22, 0x11, 0x44, 0x33] [0xBE, 0xEF] [0xBE, 0xEF]) 0x30
        = Inr 0xBEEF
   \<and> fst (fixup (fixup_record [0xEF, 0xBE, 0x22, 0x11, 0x44, 0x33] [0xBE, 0xEF] [0xBE, 0xEF])
              0 3 0x30) ! 0x1FE = 0xBE
   \<and> fst (fixup (fixup_record [0xEF, 0xBE, 0x22, 0x11, 0x44, 0x33] [0xBE, 0xEF] [0xBE, 0xEF])
              0 3 0x30) ! 0x1FF = 0xEF
   \<and> fst (fixup (fixup_record [0xEF, 0xBE, 0x22, 0x11, 0x44, 0x33] [0xBE, 0xEF] [0xBE, 0xEF])
              0 3 0x30) ! 0x3FE = 0xBE
   \<and> fst (fixup (fixup_record [0xEF, 0xBE, 0x22, 0x11, 0x44, 0x33] [0xBE, 0xEF] [0xBE, 0xEF])
              0 3 0x30) ! 0x3FF = 0xEF"
proof -
  let ?R = "fixup_record [0xEF, 0xBE, 0x22, 0x11, 0x44, 0x33] [0xBE, 0xEF] [0xBE, 0xEF]"
  have len: "length ?R = 1024" by (simp add: fixup_record_length)
  have fx: "fixup ?R 0 3 0x30 = (?R, None)"
    by (rule fixup_scenario_mismatch) (simp_all add: len fixup_record_nth)
  have "unpack_word ?R 0x30 = Inr 0xBEEF"
    by (simp add: unpack_word_nth len fixup_record_nth)
  then show ?thesis unfolding fx by (simp add: fixup_record_nth)
qed


text \<open>
  Claim C7 (amended). When the update sequence array lies clear of the sector tails
  that the loop visits, a second fixup with the same parameters leaves the buffer as
  the first one left it, and ends the same way.
\<close>

theorem fixup_idempotent_clear_usa:
  "usa_clear_of_tails num_fixups fixup_value_offset \<Longrightarrow>
   fixup (fst (fixup buf base num_fixups fixup_value_offset)) base num_fixups fixup_value_offset
     = fixup buf base num_fixups fixup_value_offset"
  using fixup_twice [of num_fixups fixup_value_offset buf base]
  by (cases "fixup buf base num_fixups fixup_value_offset") simp

theorem fixup_idempotent_clear_usa_witness:
  "usa_clear_of_tails 3 0x30 \<and>
   fixup (fst (fixup (fixup_record [0xEF, 0xBE, 0x22, 0x11, 0x44, 0x33] [0xEF, 0xBE] [0xEF, 0xBE])
                 0 3 0x30)) 0 3 0x30
     = fixup (fixup_record [0xEF, 0xBE, 0x22, 0x11, 0x44, 0x33] [0xEF, 0xBE] [0xEF, 0xBE]) 0 3 0x30"
  using fixup_idempotent_clear_usa [OF usa_clear_scenario] usa_clear_scenario by blast

lemma overlap_record_nth:
  "length overlap_record = 1024"
  "overlap_record ! 510 = 1" "overlap_record ! 511 = 0"
  "overlap_record ! 512 = 2" "overlap_record ! 513 = 0"
  "overlap_record ! 514 = 3" "overlap_record ! 515 = 0"
  "overlap_record ! 1022 = 2" "overlap_record ! 1023 = 0"
  by (simp_all add: overlap_record_def nth_append)

lemma fixup_overlap_first:
  assumes "length buf = 1024"
    and "buf ! 510 = 1" "buf ! 511 = 0" "buf ! 512 = 2" "buf ! 513 = 0"
    and "buf ! 514 = 3" "buf ! 515 = 0" "buf ! 1022 = 2" "buf ! 1023 = 0"
  shows "fixup buf 0 3 510 = (buf[510 := 2, 511 := 0], None)"
  using assms by (simp add: fixup_def upt_0_2 unpack_word_nth pack_word_def)

lemma fixup_overlap_second:
  assumes "length buf = 1024"
    and "buf ! 510 = 2" "buf ! 511 = 0" "buf ! 512 = 2" "buf ! 513 = 0"
    and "buf ! 514 = 3" "buf ! 515 = 0" "buf ! 1022 = 2" "buf ! 1023 = 0"
  shows "fixup buf 0 3 510 = (buf[510 := 2, 511 := 0, 1022 := 3, 1023 := 0], None)"
  using assms by (simp add: fixup_def upt_0_2 unpack_word_nth pack_word_def)

text \<open>
  Claim C7 as stated fails on a record whose update sequence array overlaps a sector
  tail: the first fixup rewrites the sentinel itself, so the second one reads another
  sentinel and patches the second sector, which the first one had left alone.
\<close>

theorem fixup_not_idempotent_counterexample:
  "fst (fixup overlap_record 0 3 510) ! 1022 = 2 \<and>
   fst (fixup (fst (fixup overlap_record 0 3 510)) 0 3 510) ! 1022 = 3 \<and>
   fst (fixup (fst (fixup overlap_record 0 3 510)) 0 3 510) \<noteq> fst (fixup overlap_record 0 3 510)"
proof -
  let ?F = "overlap_record[510 := 2, 511 := 0]"
  have one: "fixup overlap_record 0 3 510 = (?F, None)"
    by (rule fixup_overlap_first) (simp_all add: overlap_record_nth)
  have two: "fixup ?F 0 3 510 = (?F[510 := 2, 511 := 0, 1022 := 3, 1023 := 0], None)"
    by (rule fixup_overlap_second) (simp_all add: overlap_record_nth)
  have a: "fst (fixup overlap_record 0 3 510) ! 1022 = 2"
    by (simp add: one overlap_record_nth)
  have b: "fst (fixup (fst (fixup overlap_record 0 3 510)) 0 3 510) ! 1022 = 3"
    by (simp add: one two overlap_record_nth)
  from a b have "fst (fixup (fst (fixup overlap_record 0 3 510)) 0 3 510) ! 1022
      \<noteq> fst (fixup overlap_record 0 3 510) ! 1022" by simp
  then have "fst (fixup (fst (fixup overlap_record 0 3 510)) 0 3 510) \<noteq> fst (fixup overlap_record 0 3 510)"
    by metis
  with a b show ?thesis by blast
qed

section \<open>Verification: the attribute walk\<close>

lemma take_drop_Cons:
  "off < length buf \<Longrightarrow> take (Suc n) (drop off buf) = buf ! off # take n (drop (Suc off) buf)"
  by (simp flip: Cons_nth_drop_Suc)

lemma take_drop_nth4:
  "off + 4 \<le> length buf \<Longrightarrow>
   take 4 (drop off buf) = [buf ! off, buf ! (off + 1), buf ! (off + 2), buf ! (off + 3)]"
  by (simp add: eval_nat_numeral take_drop_Cons)

lemma take_drop_nth8:
  "off + 8 \<le> length buf \<Longrightarrow>
   take 8 (drop off buf) = [buf ! off, buf ! (off + 1), buf ! (off + 2), buf ! (off + 3),
      buf ! (off + 4), buf ! (off + 5), buf ! (off + 6), buf ! (off + 7)]"
  by (simp add: eval_nat_numeral take_drop_Cons)

lemma unpack_byte_nth:
  "unpack_byte buf off =
     (if off < length buf then Inr (unat (buf ! off)) else Inl OverrunBuffer)"
proof (cases "off < length buf")
  case True
  then have "take 1 (drop off buf) = [buf ! off]"
    by (simp add: list_eq_iff_nth_eq)
  with True show ?thesis by (simp add: unpack_byte_def unpack_le_def unpack_binary_def)
next
  case False
  then show ?thesis by (simp add: unpack_byte_def unpack_le_def unpack_binary_def)
qed

lemma unpack_dword_nth:
  "unpack_dword buf off =
     (if off + 4 \<le> length buf
      then Inr (unat (buf ! off) + 256 * (unat (buf ! (off + 1))
                  + 256 * (unat (buf ! (off + 2)) + 256 * unat (buf ! (off + 3)))))
      else Inl OverrunBuffer)"
  by (simp add: unpack_dword_def unpack_le_def unpack_binary_def take_drop_nth4)

lemma Attribute_offset: "Attribute buf off = Inr a \<Longrightarrow> at_offset a = off"
  by (auto simp: Attribute_def split: sum.splits if_splits)

lemma Attribute_readable:
  "Attribute buf off = Inr a \<Longrightarrow> off + 9 \<le> length buf"
  by (auto simp: Attribute_def unpack_byte_nth split: sum.splits if_splits)

lemma attributes_loop_cases:
  assumes "attributes_loop fuel buf base off = (as, ending)"
  shows "(as = [] \<and> (ending = Finished \<longrightarrow> walk_stops buf base off))
       \<or> (\<exists>fuel' a as' t s biu sz.
             fuel = Suc fuel' \<and> as = a # as' \<and>
             unpack_dword buf (base + off) = Inr t \<and> t \<noteq> 0 \<and> t \<noteq> 0xFFFFFFFF \<and>
             unpack_dword buf (base + (off + 4)) = Inr s \<and>
             unpack_dword buf (base + 0x18) = Inr biu \<and>
             off + s \<le> base + biu \<and>
             Attribute buf off = Inr a \<and> at_size buf a = Inr sz \<and>
             attributes_loop fuel' buf base (off + sz) = (as', ending))"
proof (cases fuel)
  case 0
  with assms show ?thesis by simp
next
  case (Suc fuel')
  with assms show ?thesis
    by (auto simp: walk_stops_def split: sum.splits if_splits prod.splits)
qed

lemma attributes_loop_walk:
  "attributes_loop fuel buf base off = (as, ending) \<Longrightarrow>
   (\<forall>i<length as.
       at_offset (as ! i) = off + sum_list (map (size_of buf) (take i as)) \<and>
       Attribute buf (at_offset (as ! i)) = Inr (as ! i) \<and>
       (\<exists>t s biu.
           unpack_dword buf (base + at_offset (as ! i)) = Inr t \<and> t \<noteq> 0 \<and> t \<noteq> 0xFFFFFFFF \<and>
           unpack_dword buf (base + (at_offset (as ! i) + 4)) = Inr s \<and>
           unpack_dword buf (base + 0x18) = Inr biu \<and>
           at_offset (as ! i) + s \<le> base + biu)) \<and>
   (ending = Finished \<longrightarrow> walk_stops buf base (off + sum_list (map (size_of buf) as)))"
proof (induction as arbitrary: fuel off)
  case Nil
  from attributes_loop_cases[OF Nil.prems] show ?case by simp
next
  case (Cons a as)
  from attributes_loop_cases[OF Cons.prems] obtain fuel' t s biu sz where
    t: "unpack_dword buf (base + off) = Inr t" "t \<noteq> 0" "t \<noteq> 0xFFFFFFFF" and
    s: "unpack_dword buf (base + (off + 4)) = Inr s" and
    biu: "unpack_dword buf (base + 0x18) = Inr biu" and
    le: "off + s \<le> base + biu" and
    a: "Attribute buf off = Inr a" and sz: "at_size buf a = Inr sz" and
    rest: "attributes_loop fuel' buf base (off + sz) = (as, ending)"
    by auto
  note ih = Cons.IH[OF rest]
  have ao: "at_offset a = off" by (rule Attribute_offset[OF a])
  have so: "size_of buf a = sz" using sz by (simp add: size_of_def)
  have ihj: "at_offset (as ! j) = off + sz + sum_list (map (size_of buf) (take j as)) \<and>
       Attribute buf (at_offset (as ! j)) = Inr (as ! j) \<and>
       (\<exists>t s biu.
           unpack_dword buf (base + at_offset (as ! j)) = Inr t \<and> t \<noteq> 0 \<and> t \<noteq> 0xFFFFFFFF \<and>
           unpack_dword buf (base + (at_offset (as ! j) + 4)) = Inr s \<and>
           unpack_dword buf (base + 0x18) = Inr biu \<and>
           at_offset (as ! j) + s \<le> base + biu)" if "j < length as" for j
    using ih that by blast
  show ?case
  proof (intro conjI allI impI)
    fix i assume i: "i < length (a # as)"
    show "at_offset ((a # as) ! i) = off + sum_list (map (size_of buf) (take i (a # as)))"
    proof (cases i)
      case 0 then show ?thesis using ao by simp
    next
      case (Suc j)
      with i have "j < length as" by simp
      from ihj[OF this] Suc show ?thesis by (simp add: so)
    qed
    show "Attribute buf (at_offset ((a # as) ! i)) = Inr ((a # as) ! i)"
    proof (cases i)
      case 0 then show ?thesis using ao a by simp
    next
      case (Suc j)
      with i have "j < length as" by simp
      from ihj[OF this] have "Attribute buf (at_offset (as ! j)) = Inr (as ! j)" by blast
      with Suc show ?thesis by simp
    qed
    show "\<exists>t s biu.
           unpack_dword buf (base + at_offset ((a # as) ! i)) = Inr t \<and> t \<noteq> 0 \<and> t \<noteq> 0xFFFFFFFF \<and>
           unpack_dword buf (base + (at_offset ((a # as) ! i) + 4)) = Inr s \<and>
           unpack_dword buf (base + 0x18) = Inr biu \<and>
           at_offset ((a # as) ! i) + s \<le> base + biu"
    proof (cases i)
      case 0 then show ?thesis using t s biu le ao by simp
    next
      case (Suc j)
      with i have "j < length as" by simp
      from ihj[OF this] have "\<exists>t s biu.
           unpack_dword buf (base + at_offset (as ! j)) = Inr t \<and> t \<noteq> 0 \<and> t \<noteq> 0xFFFFFFFF \<and>
           unpack_dword buf (base + (at_offset (as ! j) + 4)) = Inr s \<and>
           unpack_dword buf (base + 0x18) = Inr biu \<and>
           at_offset (as ! j) + s \<le> base + biu" by blast
      with Suc show ?thesis by simp
    qed
  next
    assume "ending = Finished"
    with ih show "walk_stops buf base (off + sum_list (map (size_of buf) (a # as)))"
      by (simp add: so add.assoc)
  qed
qed

text \<open>More fuel only extends a walk, and a walk that has ended stays as it is.\<close>

lemma attributes_loop_more:
  "attributes_loop fuel buf base off = (as, ending) \<Longrightarrow>
   \<exists>extra ending'. attributes_loop (fuel + k) buf base off = (as @ extra, ending') \<and>
      (ending \<noteq> Pending \<longrightarrow> extra = [] \<and> ending' = ending)"
proof (induction fuel arbitrary: off as)
  case 0
  then show ?case by (cases "attributes_loop k buf base off") auto
next
  case (Suc fuel)
  from attributes_loop_cases[OF Suc.prems] show ?case
  proof (elim disjE exE conjE)
    assume "as = []"
    with Suc.prems show ?thesis
      by (cases "attributes_loop (fuel + k) buf base off")
         (auto split: sum.splits if_splits prod.splits)
  next
    fix fuel' a as' t s biu sz
    assume f: "Suc fuel = Suc fuel'" and as: "as = a # as'"
      and t: "unpack_dword buf (base + off) = Inr t" "t \<noteq> 0" "t \<noteq> 0xFFFFFFFF"
      and s: "unpack_dword buf (base + (off + 4)) = Inr s"
      and biu: "unpack_dword buf (base + 0x18) = Inr biu"
      and le: "off + s \<le> base + biu"
      and a: "Attribute buf off = Inr a" and sz: "at_size buf a = Inr sz"
      and rest: "attributes_loop fuel' buf base (off + sz) = (as', ending)"
    from f rest have "attributes_loop fuel buf base (off + sz) = (as', ending)" by simp
    from Suc.IH[OF this] obtain extra ending' where
      m: "attributes_loop (fuel + k) buf base (off + sz) = (as' @ extra, ending')"
         "ending \<noteq> Pending \<longrightarrow> extra = [] \<and> ending' = ending" by blast
    from t s biu le a sz m(1) as
    have "attributes_loop (Suc fuel + k) buf base off = (as @ extra, ending')" by simp
    with m(2) show ?thesis by blast
  qed
qed

lemma short_record_length: "length short_record = 96"
  by (simp add: short_record_def)

lemma short_record_reads:
  "unpack_word short_record 6 = Inr 0"
  "unpack_word short_record 4 = Inr 0"
  "unpack_word short_record 0 = Inr 0"
  "unpack_word short_record 0x14 = Inr 0x30"
  "unpack_dword short_record 0x18 = Inr 0x45"
  "unpack_dword short_record 0x30 = Inr 0x10"
  "unpack_dword short_record 0x34 = Inr 0x15"
  "unpack_byte short_record 0x38 = Inr 0"
  "unpack_word short_record 0x44 = Inr 0"
  "unpack_dword short_record 0x40 = Inr 0"
  "unpack_dword short_record 0x45 = Inr 0"
  by (simp_all add: unpack_word_nth unpack_dword_nth unpack_byte_nth short_record_length)
     (simp_all add: short_record_def nth_append)

lemma short_record_MFTRecord:
  "MFTRecord short_record 0 = Inr \<lparr> mr_buf = short_record, mr_offset = 0 \<rparr>"
  by (simp add: MFTRecord_def fixup_def short_record_reads)

lemma short_record_Attribute:
  "Attribute short_record 0x30 =
     Inr \<lparr> at_offset = 0x30, at_non_resident = 0, at_value_field = Some (0, 0) \<rparr>"
  by (simp add: Attribute_def short_record_reads)

lemma short_record_size:
  "at_size short_record \<lparr> at_offset = 0x30, at_non_resident = 0, at_value_field = Some (0, 0) \<rparr>
     = Inr 0x15"
  by (simp add: at_size_def short_record_reads)

lemma short_record_attributes:
  "attributes 2 \<lparr> mr_buf = short_record, mr_offset = 0 \<rparr> =
     ([\<lparr> at_offset = 0x30, at_non_resident = 0, at_value_field = Some (0, 0) \<rparr>], Finished)"
proof -
  have stop: "attributes_loop (Suc 0) short_record 0 0x45 = ([], Finished)"
    by (simp add: short_record_reads)
  have "attributes_loop (Suc (Suc 0)) short_record 0 0x30 =
     ([\<lparr> at_offset = 0x30, at_non_resident = 0, at_value_field = Some (0, 0) \<rparr>], Finished)"
    by (subst attributes_loop.simps)
       (simp add: short_record_reads short_record_Attribute short_record_size stop
          del: attributes_loop.simps)
  then show ?thesis
    by (simp add: attributes_def mr_attrs_offset_def short_record_reads numeral_2_eq_2
          del: attributes_loop.simps)
qed

section \<open>Verification: the example records\<close>

lemma example_lengths:
  "length (example_head num seq) = 0x68"
  "length parent = 8 \<Longrightarrow> length (example_value parent ftype ch) = 0x44"
  "length example_tail = 852"
  "length parent = 8 \<Longrightarrow> length (example_record num seq parent ftype ch) = 1024"
  by (simp_all add: example_head_def example_value_def example_tail_def example_record_def)

lemma unpack_binary_middle:
  "unpack_binary (xs @ ys @ zs) (length xs) (length ys) = Inr ys"
  by (simp add: unpack_binary_def)

lemma example_head_nth:
  "i < 0x68 \<Longrightarrow> example_record num seq parent ftype ch ! i = example_head num seq ! i"
  by (simp add: example_record_def nth_append example_lengths)

lemma nth_append_third:
  "length xs + length ys \<le> i \<Longrightarrow> (xs @ ys @ zs) ! i = zs ! (i - (length xs + length ys))"
  by (simp add: nth_append) arith

lemma example_tail_nth:
  assumes "length parent = 8" "0xAC \<le> i"
  shows "example_record num seq parent ftype ch ! i = example_tail ! (i - 0xAC)"
proof -
  have "length (example_head num seq) + length (example_value parent ftype ch) = 0xAC"
    using assms(1) by (simp add: example_lengths)
  with assms(2) nth_append_third[of "example_head num seq" "example_value parent ftype ch" i example_tail]
  show ?thesis by (simp add: example_record_def)
qed

lemma example_record_reads:
  assumes "length parent = 8"
  shows
  "unpack_word (example_record num seq parent ftype ch) 6 = Inr 0"
  "unpack_word (example_record num seq parent ftype ch) 4 = Inr 0"
  "unpack_word (example_record num seq parent ftype ch) 0 = Inr 0x4946"
  "unpack_word (example_record num seq parent ftype ch) 0x10 = Inr (unat seq)"
  "unpack_word (example_record num seq parent ftype ch) 0x14 = Inr 0x30"
  "unpack_dword (example_record num seq parent ftype ch) 0x18 = Inr 0x100"
  "unpack_dword (example_record num seq parent ftype ch) 0x2C = Inr (unat num)"
  "unpack_dword (example_record num seq parent ftype ch) 0x30 = Inr 0x30"
  "unpack_dword (example_record num seq parent ftype ch) 0x34 = Inr 0x20"
  "unpack_byte (example_record num seq parent ftype ch) 0x38 = Inr 0"
  "unpack_word (example_record num seq parent ftype ch) 0x44 = Inr 0x18"
  "unpack_dword (example_record num seq parent ftype ch) 0x40 = Inr 4"
  "unpack_dword (example_record num seq parent ftype ch) 0x50 = Inr 0x30"
  "unpack_dword (example_record num seq parent ftype ch) 0x54 = Inr 0x60"
  "unpack_byte (example_record num seq parent ftype ch) 0x58 = Inr 0"
  "unpack_word (example_record num seq parent ftype ch) 0x64 = Inr 0x18"
  "unpack_dword (example_record num seq parent ftype ch) 0x60 = Inr 0x44"
  using assms
  by (simp_all add: unpack_word_nth unpack_dword_nth unpack_byte_nth example_lengths example_head_nth)
     (simp_all add: example_head_def nth_append)

lemma example_record_end:
  assumes "length parent = 8"
  shows "unpack_dword (example_record num seq parent ftype ch) 0xB0 = Inr 0xFFFFFFFF"
  using assms
  by (simp add: unpack_dword_nth example_lengths example_tail_nth)
     (simp add: example_tail_def nth_append)

lemma unpack_binary_length: "unpack_binary buf off n = Inr v \<Longrightarrow> length v = n"
  by (auto simp: unpack_binary_def split: if_splits)

lemma example_MFTRecord:
  "length parent = 8 \<Longrightarrow>
   MFTRecord (example_record num seq parent ftype ch) 0 =
     Inr \<lparr> mr_buf = example_record num seq parent ftype ch, mr_offset = 0 \<rparr>"
  by (simp add: MFTRecord_def fixup_def example_record_reads)

lemma example_attributes:
  assumes "length parent = 8"
  shows "attributes 3 \<lparr> mr_buf = example_record num seq parent ftype ch, mr_offset = 0 \<rparr> =
     ([\<lparr> at_offset = 0x30, at_non_resident = 0, at_value_field = Some (0x18, 4) \<rparr>,
       \<lparr> at_offset = 0x50, at_non_resident = 0, at_value_field = Some (0x18, 0x44) \<rparr>],
      Finished)"
proof -
  let ?R = "example_record num seq parent ftype ch"
  note rd = example_record_reads[OF assms, of num seq ftype ch]
  have stop: "attributes_loop (Suc 0) ?R 0 0xB0 = ([], Finished)"
    by (simp add: example_record_end[OF assms])
  have two: "attributes_loop (Suc (Suc 0)) ?R 0 0x50 =
     ([\<lparr> at_offset = 0x50, at_non_resident = 0, at_value_field = Some (0x18, 0x44) \<rparr>],
      Finished)"
    by (subst attributes_loop.simps)
       (simp add: rd Attribute_def at_size_def stop del: attributes_loop.simps)
  have "attributes_loop (Suc (Suc (Suc 0))) ?R 0 0x30 =
     ([\<lparr> at_offset = 0x30, at_non_resident = 0, at_value_field = Some (0x18, 4) \<rparr>,
       \<lparr> at_offset = 0x50, at_non_resident = 0, at_value_field = Some (0x18, 0x44) \<rparr>],
      Finished)"
    by (subst attributes_loop.simps)
       (simp add: rd Attribute_def at_size_def two del: attributes_loop.simps)
  then show ?thesis
    by (simp add: attributes_def mr_attrs_offset_def rd numeral_3_eq_3
          del: attributes_loop.simps)
qed

lemma example_parse_short:
  assumes "length parent = 8"
  shows "parse_filename_value (example_record num seq parent ftype ch)
     \<lparr> at_offset = 0x30, at_non_resident = 0, at_value_field = Some (0x18, 4) \<rparr>
     = Inl OverrunBuffer"
proof -
  let ?R = "example_record num seq parent ftype ch"
  have "unpack_binary ?R 0x48 4 = Inr (take 4 (drop 0x48 ?R))"
    using assms by (simp add: unpack_binary_def example_lengths)
  moreover have "FilenameAttribute (take 4 (drop 0x48 ?R)) 0 = Inl OverrunBuffer"
    by (simp add: FilenameAttribute_def unpack_byte_nth)
  ultimately show ?thesis by (simp add: parse_filename_value_def at_value_def)
qed

lemma example_value_reads:
  assumes "length parent = 8"
  shows
  "unpack_byte (example_value parent ftype ch) 0x40 = Inr 1"
  "unpack_byte (example_value parent ftype ch) 0x41 = Inr (unat ftype)"
  "unpack_qword (example_value parent ftype ch) 0 = Inr (le_num parent)"
  "unpack_wstring (example_value parent ftype ch) 0x42 1 = Inr [unat ch]"
  using assms
  by (simp_all add: unpack_byte_nth unpack_qword_def unpack_wstring_def unpack_le_def
        unpack_binary_def example_lengths)
     (simp_all add: example_value_def nth_append)

lemma example_parse_value:
  assumes "length parent = 8"
  shows "parse_filename_value (example_record num seq parent ftype ch)
     \<lparr> at_offset = 0x50, at_non_resident = 0, at_value_field = Some (0x18, 0x44) \<rparr>
     = Inr (\<lparr> fn_buf = example_value parent ftype ch, fn_offset = 0, fn_filename_length = 1 \<rparr>,
            unat ftype)"
proof -
  let ?R = "example_record num seq parent ftype ch"
  have "unpack_binary ?R 0x68 0x44 = Inr (example_value parent ftype ch)"
    using unpack_binary_middle[of "example_head num seq" "example_value parent ftype ch" example_tail]
      assms by (simp add: example_record_def example_lengths)
  then show ?thesis
    by (simp add: parse_filename_value_def at_value_def FilenameAttribute_def
          fn_filename_type_def example_value_reads[OF assms])
qed

lemma example_filename_information:
  assumes "length parent = 8"
  shows "filename_information 3
       \<lparr> mr_buf = example_record num seq parent ftype ch, mr_offset = 0 \<rparr> =
     Some (Inr (Some \<lparr> fn_buf = example_value parent ftype ch, fn_offset = 0,
                        fn_filename_length = 1 \<rparr>))"
  by (simp add: filename_information_def example_attributes[OF assms] at_type_def
        example_record_reads[OF assms] example_parse_short[OF assms] example_parse_value[OF assms])

lemma unterminated_record_length: "length unterminated_record = 1024"
  by (simp add: unterminated_record_def example_lengths)

lemma unterminated_record_reads:
  "unpack_word unterminated_record 6 = Inr 0"
  "unpack_word unterminated_record 4 = Inr 0"
  "unpack_word unterminated_record 0 = Inr 0x4946"
  "unpack_word unterminated_record 0x14 = Inr 0x30"
  "unpack_dword unterminated_record 0x18 = Inr 0x400"
  "unpack_dword unterminated_record 0x30 = Inr 0x30"
  "unpack_dword unterminated_record 0x34 = Inr 0x20"
  "unpack_byte unterminated_record 0x38 = Inr 0"
  "unpack_word unterminated_record 0x44 = Inr 0x18"
  "unpack_dword unterminated_record 0x40 = Inr 4"
  "unpack_dword unterminated_record 0x50 = Inr 0x30"
  "unpack_dword unterminated_record 0x54 = Inr 0x3B0"
  "unpack_byte unterminated_record 0x58 = Inr 0"
  "unpack_word unterminated_record 0x64 = Inr 0x18"
  "unpack_dword unterminated_record 0x60 = Inr 0x44"
  "unpack_dword unterminated_record 0x400 = Inl OverrunBuffer"
  apply (simp_all add: unpack_word_nth unpack_dword_nth unpack_byte_nth
        unterminated_record_length)
  apply (simp_all add: unterminated_record_def example_lengths example_head_nth)
  apply (simp_all add: example_head_def nth_append)
  done

lemma unterminated_record_values:
  "unpack_binary unterminated_record 0x48 4 =
     unpack_binary (example_record 0 1 [5, 0, 0, 0, 0, 0, 1, 0] 2 0x61) 0x48 4"
  "unpack_binary unterminated_record 0x68 0x44 =
     unpack_binary (example_record 0 1 [5, 0, 0, 0, 0, 0, 1, 0] 2 0x61) 0x68 0x44"
  by (simp_all add: unpack_binary_def unterminated_record_def drop_update_swap
        take_update_cancel drop_update_cancel)

lemma unterminated_record_MFTRecord:
  "MFTRecord unterminated_record 0 = Inr \<lparr> mr_buf = unterminated_record, mr_offset = 0 \<rparr>"
  by (simp add: MFTRecord_def fixup_def unterminated_record_reads)

lemma unterminated_record_attributes:
  "attributes 3 \<lparr> mr_buf = unterminated_record, mr_offset = 0 \<rparr> =
     ([\<lparr> at_offset = 0x30, at_non_resident = 0, at_value_field = Some (0x18, 4) \<rparr>,
       \<lparr> at_offset = 0x50, at_non_resident = 0, at_value_field = Some (0x18, 0x44) \<rparr>],
      Raised OverrunBuffer)"
proof -
  note rd = unterminated_record_reads
  have stop: "attributes_loop (Suc 0) unterminated_record 0 0x400 = ([], Raised OverrunBuffer)"
    by (simp add: rd)
  have two: "attributes_loop (Suc (Suc 0)) unterminated_record 0 0x50 =
     ([\<lparr> at_offset = 0x50, at_non_resident = 0, at_value_field = Some (0x18, 0x44) \<rparr>],
      Raised OverrunBuffer)"
    by (subst attributes_loop.simps)
       (simp add: rd Attribute_def at_size_def stop del: attributes_loop.simps)
  have "attributes_loop (Suc (Suc (Suc 0))) unterminated_record 0 0x30 =
     ([\<lparr> at_offset = 0x30, at_non_resident = 0, at_value_field = Some (0x18, 4) \<rparr>,
       \<lparr> at_offset = 0x50, at_non_resident = 0, at_value_field = Some (0x18, 0x44) \<rparr>],
      Raised OverrunBuffer)"
    by (subst attributes_loop.simps)
       (simp add: rd Attribute_def at_size_def two del: attributes_loop.simps)
  then show ?thesis
    by (simp add: attributes_def mr_attrs_offset_def rd numeral_3_eq_3
          del: attributes_loop.simps)
qed

lemma unterminated_record_parse:
  "parse_filename_value unterminated_record
     \<lparr> at_offset = 0x30, at_non_resident = 0, at_value_field = Some (0x18, 4) \<rparr>
     = Inl OverrunBuffer"
  "parse_filename_value unterminated_record
     \<lparr> at_offset = 0x50, at_non_resident = 0, at_value_field = Some (0x18, 0x44) \<rparr>
     = Inr (\<lparr> fn_buf = example_value [5, 0, 0, 0, 0, 0, 1, 0] 2 0x61, fn_offset = 0,
              fn_filename_length = 1 \<rparr>, 2)"
proof -
  let ?p = "[5, 0, 0, 0, 0, 0, 1, 0] :: byte list"
  have len: "length ?p = 8" by simp
  from example_parse_short[OF len, of 0 1 2 "0x61"]
  show "parse_filename_value unterminated_record
     \<lparr> at_offset = 0x30, at_non_resident = 0, at_value_field = Some (0x18, 4) \<rparr>
     = Inl OverrunBuffer"
    by (simp add: parse_filename_value_def at_value_def unterminated_record_values)
  from example_parse_value[OF len, of 0 1 2 "0x61"]
  show "parse_filename_value unterminated_record
     \<lparr> at_offset = 0x50, at_non_resident = 0, at_value_field = Some (0x18, 0x44) \<rparr>
     = Inr (\<lparr> fn_buf = example_value ?p 2 0x61, fn_offset = 0, fn_filename_length = 1 \<rparr>, 2)"
    by (simp add: parse_filename_value_def at_value_def unterminated_record_values)
qed

section \<open>Verification: the attributes yielded\<close>

text \<open>
  Claim C4 (amended). The walk starts at \<open>attrs_offset\<close>; every yielded attribute
  sits at the cursor, which has advanced by exactly \<open>size()\<close>, the size field as
  stored, of each attribute before it; the DWORD at the cursor is neither 0 nor
  0xFFFFFFFF, and the cursor plus the declared size that the loop read (the DWORD
  at cursor + 4 of the record, which is \<open>size()\<close> of the attribute for a record at
  offset 0 of its buffer) is at most \<open>base + bytes_in_use\<close>; and when the walk
  ends without an exception, one of the three stop conditions holds at the final
  cursor. This holds for every number of iterations of the loop.
\<close>

theorem attributes_walk:
  assumes "attributes fuel r = (as, ending)" and "mr_attrs_offset r = Inr start"
  shows "(\<forall>i<length as.
       at_offset (as ! i) = start + sum_list (map (size_of (mr_buf r)) (take i as)) \<and>
       Attribute (mr_buf r) (at_offset (as ! i)) = Inr (as ! i) \<and>
       (\<exists>t s bytes_in_use.
           unpack_dword (mr_buf r) (mr_offset r + at_offset (as ! i)) = Inr t \<and>
           t \<noteq> 0 \<and> t \<noteq> 0xFFFFFFFF \<and>
           unpack_dword (mr_buf r) (mr_offset r + (at_offset (as ! i) + 4)) = Inr s \<and>
           mr_bytes_in_use r = Inr bytes_in_use \<and>
           at_offset (as ! i) + s \<le> mr_offset r + bytes_in_use \<and>
           (mr_offset r = 0 \<longrightarrow> at_size (mr_buf r) (as ! i) = Inr s))) \<and>
   (ending = Finished \<longrightarrow>
      walk_stops (mr_buf r) (mr_offset r) (start + sum_list (map (size_of (mr_buf r)) as)))"
proof -
  from assms have loop: "attributes_loop fuel (mr_buf r) (mr_offset r) start = (as, ending)"
    by (simp add: attributes_def)
  note w = attributes_loop_walk[OF loop]
  show ?thesis
  proof (intro conjI allI impI)
    fix i assume i: "i < length as"
    from w i show "at_offset (as ! i) = start + sum_list (map (size_of (mr_buf r)) (take i as))"
      by blast
    from w i show "Attribute (mr_buf r) (at_offset (as ! i)) = Inr (as ! i)" by blast
    from w i obtain t s biu where
      g: "unpack_dword (mr_buf r) (mr_offset r + at_offset (as ! i)) = Inr t"
         "t \<noteq> 0" "t \<noteq> 0xFFFFFFFF"
         "unpack_dword (mr_buf r) (mr_offset r + (at_offset (as ! i) + 4)) = Inr s"
         "unpack_dword (mr_buf r) (mr_offset r + 0x18) = Inr biu"
         "at_offset (as ! i) + s \<le> mr_offset r + biu"
      by blast
    from g(4) have "mr_offset r = 0 \<longrightarrow> at_size (mr_buf r) (as ! i) = Inr s"
      by (auto simp: at_size_def)
    with g show "\<exists>t s bytes_in_use.
           unpack_dword (mr_buf r) (mr_offset r + at_offset (as ! i)) = Inr t \<and>
           t \<noteq> 0 \<and> t \<noteq> 0xFFFFFFFF \<and>
           unpack_dword (mr_buf r) (mr_offset r + (at_offset (as ! i) + 4)) = Inr s \<and>
           mr_bytes_in_use r = Inr bytes_in_use \<and>
           at_offset (as ! i) + s \<le> mr_offset r + bytes_in_use \<and>
           (mr_offset r = 0 \<longrightarrow> at_size (mr_buf r) (as ! i) = Inr s)"
      unfolding mr_bytes_in_use_def by auto
  next
    assume "ending = Finished"
    with w show "walk_stops (mr_buf r) (mr_offset r)
        (start + sum_list (map (size_of (mr_buf r)) as))" by blast
  qed
qed

text \<open>
  In the example record the walk yields the attribute at 0x30, whose size is
  0x20, then the one at 0x50, whose size is 0x60, and stops at the end marker at
  0xB0.
\<close>

theorem attributes_walk_witness:
  "attributes 3 \<lparr> mr_buf = example_record 0 9 [1, 0, 0, 0, 0, 0, 7, 0] 1 0x61, mr_offset = 0 \<rparr> =
     ([\<lparr> at_offset = 0x30, at_non_resident = 0, at_value_field = Some (0x18, 4) \<rparr>,
       \<lparr> at_offset = 0x50, at_non_resident = 0, at_value_field = Some (0x18, 0x44) \<rparr>],
      Finished)
   \<and> mr_attrs_offset
        \<lparr> mr_buf = example_record 0 9 [1, 0, 0, 0, 0, 0, 7, 0] 1 0x61, mr_offset = 0 \<rparr>
       = Inr 0x30
   \<and> size_of (example_record 0 9 [1, 0, 0, 0, 0, 0, 7, 0] 1 0x61)
        \<lparr> at_offset = 0x30, at_non_resident = 0, at_value_field = Some (0x18, 4) \<rparr> = 0x20
   \<and> size_of (example_record 0 9 [1, 0, 0, 0, 0, 0, 7, 0] 1 0x61)
        \<lparr> at_offset = 0x50, at_non_resident = 0, at_value_field = Some (0x18, 0x44) \<rparr> = 0x60
   \<and> (0x50 :: nat) = 0x30 + 0x20
   \<and> walk_stops (example_record 0 9 [1, 0, 0, 0, 0, 0, 7, 0] 1 0x61) 0 (0x30 + (0x20 + 0x60))"
proof -
  let ?p = "[1, 0, 0, 0, 0, 0, 7, 0] :: byte list"
  let ?R = "example_record 0 9 ?p 1 0x61"
  let ?r = "\<lparr> mr_buf = ?R, mr_offset = 0 \<rparr>"
  have len: "length ?p = 8" by simp
  note at = example_attributes[OF len, of 0 9 1 "0x61"]
  have start: "mr_attrs_offset ?r = Inr 0x30"
    by (simp add: mr_attrs_offset_def example_record_reads[OF len])
  have sz: "size_of ?R \<lparr> at_offset = 0x30, at_non_resident = 0, at_value_field = Some (0x18, 4) \<rparr>
        = 0x20"
    "size_of ?R \<lparr> at_offset = 0x50, at_non_resident = 0, at_value_field = Some (0x18, 0x44) \<rparr>
        = 0x60"
    by (simp_all add: size_of_def at_size_def example_record_reads[OF len])
  note w = attributes_walk [OF at start]
  from w have "walk_stops ?R 0 (0x30 + (0x20 + 0x60))" by (simp add: sz)
  with at start sz show ?thesis by simp
qed

text \<open>
  Claim C4 as stated: \<open>a.size()\<close> is a multiple of 8. In the 96-byte record the
  attribute at 0x30 has the size field 0x15 and \<open>bytes_in_use\<close> is 0x45; the walk
  yields it, and its \<open>size()\<close> is 0x15.
\<close>

theorem attributes_size_counterexample:
  "MFTRecord short_record 0 = Inr \<lparr> mr_buf = short_record, mr_offset = 0 \<rparr>
   \<and> attributes 2 \<lparr> mr_buf = short_record, mr_offset = 0 \<rparr> =
     ([\<lparr> at_offset = 0x30, at_non_resident = 0, at_value_field = Some (0, 0) \<rparr>], Finished)
   \<and> at_size short_record
        \<lparr> at_offset = 0x30, at_non_resident = 0, at_value_field = Some (0, 0) \<rparr> = Inr 0x15
   \<and> \<not> 8 dvd (0x15 :: nat)"
  by (simp add: short_record_MFTRecord short_record_attributes short_record_size)

section \<open>Verification: filename selection\<close>

lemma filename_information_loop_spec:
  assumes "\<forall>a\<in>set as. \<exists>t. at_type buf a = Inr t"
  shows "filename_information_loop buf fn as ending =
     (if has_win32_view (parsed_filename_views buf as)
      then Some (Inr (preferred_view (parsed_filename_views buf as)))
      else (case ending of
              Finished \<Rightarrow> Some (Inr (if parsed_filename_views buf as = [] then fn
                                       else preferred_view (parsed_filename_views buf as)))
            | Raised e \<Rightarrow> Some (Inl e)
            | Pending \<Rightarrow> None))"
  using assms
proof (induction as arbitrary: fn)
  case Nil
  show ?case by (simp add: parsed_filename_views_def has_win32_view_def split: ending.splits)
next
  case (Cons a as)
  from Cons.prems obtain t where t: "at_type buf a = Inr t" by auto
  from Cons.prems have rest: "\<forall>a\<in>set as. \<exists>t. at_type buf a = Inr t" by simp
  note ih = Cons.IH[OF rest]
  show ?case
  proof (cases "t = 0x30")
    case False
    with t have views: "parsed_filename_views buf (a # as) = parsed_filename_views buf as"
      by (simp add: parsed_filename_views_def)
    from False t have step: "filename_information_loop buf fn (a # as) ending =
        filename_information_loop buf fn as ending" by simp
    show ?thesis by (simp only: step views ih)
  next
    case True
    show ?thesis
    proof (cases "parse_filename_value buf a")
      case (Inl e)
      with True t have views: "parsed_filename_views buf (a # as) = parsed_filename_views buf as"
        by (simp add: parsed_filename_views_def)
      from True t Inl have step: "filename_information_loop buf fn (a # as) ending =
          filename_information_loop buf fn as ending" by simp
      show ?thesis by (simp only: step views ih)
    next
      case (Inr v)
      obtain check ft where v: "v = (check, ft)" by (cases v)
      from True t Inr v have views:
        "parsed_filename_views buf (a # as) = (check, ft) # parsed_filename_views buf as"
        by (simp add: parsed_filename_views_def)
      show ?thesis
      proof (cases "ft = 1 \<or> ft = 3")
        case w: True
        with True t Inr v views show ?thesis
          by (auto simp: has_win32_view_def preferred_view_def)
      next
        case w: False
        with True t Inr v have step: "filename_information_loop buf fn (a # as) ending =
            filename_information_loop buf (Some check) as ending" by simp
        from w have hw: "has_win32_view ((check, ft) # parsed_filename_views buf as) =
            has_win32_view (parsed_filename_views buf as)"
          by (simp add: has_win32_view_def)
        from w have pv: "preferred_view ((check, ft) # parsed_filename_views buf as) =
            (if parsed_filename_views buf as = [] then Some check
             else preferred_view (parsed_filename_views buf as))"
          by (simp add: preferred_view_def split: option.splits)
        show ?thesis unfolding step views hw pv ih
          by (simp add: has_win32_view_def split: ending.splits)
      qed
    qed
  qed
qed

lemma attributes_types_readable:
  assumes "attributes fuel r = (as, ending)" and "a \<in> set as"
  shows "\<exists>t. at_type (mr_buf r) a = Inr t"
proof -
  from assms(1) obtain start where start: "mr_attrs_offset r = Inr start"
    and loop: "attributes_loop fuel (mr_buf r) (mr_offset r) start = (as, ending)"
    using assms(2) by (auto simp: attributes_def split: sum.splits)
  from assms(2) obtain i where i: "i < length as" "as ! i = a"
    by (auto simp: in_set_conv_nth)
  from attributes_loop_walk[OF loop] i have "Attribute (mr_buf r) (at_offset a) = Inr a"
    by blast
  from Attribute_readable[OF this] show ?thesis by (simp add: at_type_def unpack_dword_nth)
qed

text \<open>What \<open>filename_information\<close> returns does not depend on the fuel.\<close>

lemma filename_information_loop_append:
  "filename_information_loop buf fn as Pending = Some v \<Longrightarrow>
   filename_information_loop buf fn (as @ extra) ending = Some v"
  by (induction as arbitrary: fn) (auto split: sum.splits if_splits prod.splits)

lemma filename_information_stable:
  assumes "filename_information fuel r = Some v"
  shows "filename_information (fuel + k) r = Some v"
proof (cases "mr_attrs_offset r")
  case (Inl e)
  with assms show ?thesis by (simp add: filename_information_def attributes_def)
next
  case (Inr start)
  obtain as ending where l: "attributes_loop fuel (mr_buf r) (mr_offset r) start = (as, ending)"
    by (cases "attributes_loop fuel (mr_buf r) (mr_offset r) start")
  from attributes_loop_more[OF l, of k] obtain extra ending' where
    m: "attributes_loop (fuel + k) (mr_buf r) (mr_offset r) start = (as @ extra, ending')"
       "ending \<noteq> Pending \<longrightarrow> extra = [] \<and> ending' = ending" by blast
  from assms Inr l have v: "filename_information_loop (mr_buf r) None as ending = Some v"
    by (simp add: filename_information_def attributes_def)
  show ?thesis
  proof (cases "ending = Pending")
    case True
    with v have "filename_information_loop (mr_buf r) None (as @ extra) ending' = Some v"
      by (simp add: filename_information_loop_append)
    with Inr m(1) show ?thesis by (simp add: filename_information_def attributes_def)
  next
    case False
    with m v Inr show ?thesis by (simp add: filename_information_def attributes_def)
  qed
qed

text \<open>
  Claim C8 (amended). \<open>filename_information\<close> looks at the FILENAME attributes
  in the order in which the walk yields them and parses each resident value as a
  FilenameAttribute view; a failure to parse is swallowed. It returns the first
  view of type Win32 (1) or Win32+DOS (3) at once. Otherwise, when the walk ends,
  it returns the last view that parsed (\<open>False\<close> if none did); when the walk
  raises an exception, the exception reaches the caller; and as long as the walk
  goes on, it has not returned.
\<close>

theorem filename_information_selection:
  assumes "attributes fuel r = (as, ending)"
  shows "filename_information fuel r =
     (if has_win32_view (parsed_filename_views (mr_buf r) as)
      then Some (Inr (preferred_view (parsed_filename_views (mr_buf r) as)))
      else (case ending of
              Finished \<Rightarrow> Some (Inr (preferred_view (parsed_filename_views (mr_buf r) as)))
            | Raised e \<Rightarrow> Some (Inl e)
            | Pending \<Rightarrow> None))"
proof -
  have "\<forall>a\<in>set as. \<exists>t. at_type (mr_buf r) a = Inr t"
    using attributes_types_readable[OF assms] by blast
  from filename_information_loop_spec[OF this, of None ending] assms
  show ?thesis
    by (simp add: filename_information_def preferred_view_def split: ending.splits)
qed

text \<open>
  Two example records, whose first FILENAME attribute has a value too short to
  parse. Where the second is of type Win32 its view is returned; where it is of
  type DOS (2), the walk ends at the end marker and the view is returned as the
  last one that parsed.
\<close>

theorem filename_information_selection_witness:
  "attributes 3 \<lparr> mr_buf = example_record 0 9 [1, 0, 0, 0, 0, 0, 7, 0] 1 0x61, mr_offset = 0 \<rparr> =
     ([\<lparr> at_offset = 0x30, at_non_resident = 0, at_value_field = Some (0x18, 4) \<rparr>,
       \<lparr> at_offset = 0x50, at_non_resident = 0, at_value_field = Some (0x18, 0x44) \<rparr>],
      Finished)
   \<and> parsed_filename_views (example_record 0 9 [1, 0, 0, 0, 0, 0, 7, 0] 1 0x61)
       [\<lparr> at_offset = 0x30, at_non_resident = 0, at_value_field = Some (0x18, 4) \<rparr>,
        \<lparr> at_offset = 0x50, at_non_resident = 0, at_value_field = Some (0x18, 0x44) \<rparr>]
     = [(\<lparr> fn_buf = example_value [1, 0, 0, 0, 0, 0, 7, 0] 1 0x61, fn_offset = 0,
            fn_filename_length = 1 \<rparr>, 1)]
   \<and> filename_information 3
        \<lparr> mr_buf = example_record 0 9 [1, 0, 0, 0, 0, 0, 7, 0] 1 0x61, mr_offset = 0 \<rparr>
     = Some (Inr (Some \<lparr> fn_buf = example_value [1, 0, 0, 0, 0, 0, 7, 0] 1 0x61, fn_offset = 0,
                     fn_filename_length = 1 \<rparr>))
   \<and> attributes 3 \<lparr> mr_buf = example_record 0 9 [1, 0, 0, 0, 0, 0, 7, 0] 2 0x61, mr_offset = 0 \<rparr> =
     ([\<lparr> at_offset = 0x30, at_non_resident = 0, at_value_field = Some (0x18, 4) \<rparr>,
       \<lparr> at_offset = 0x50, at_non_resident = 0, at_value_field = Some (0x18, 0x44) \<rparr>],
      Finished)
   \<and> parsed_filename_views (example_record 0 9 [1, 0, 0, 0, 0, 0, 7, 0] 2 0x61)
       [\<lparr> at_offset = 0x30, at_non_resident = 0, at_value_field = Some (0x18, 4) \<rparr>,
        \<lparr> at_offset = 0x50, at_non_resident = 0, at_value_field = Some (0x18, 0x44) \<rparr>]
     = [(\<lparr> fn_buf = example_value [1, 0, 0, 0, 0, 0, 7, 0] 2 0x61, fn_offset = 0,
            fn_filename_length = 1 \<rparr>, 2)]
   \<and> filename_information 3
        \<lparr> mr_buf = example_record 0 9 [1, 0, 0, 0, 0, 0, 7, 0] 2 0x61, mr_offset = 0 \<rparr>
     = Some (Inr (Some \<lparr> fn_buf = example_value [1, 0, 0, 0, 0, 0, 7, 0] 2 0x61, fn_offset = 0,
                     fn_filename_length = 1 \<rparr>))"
proof -
  let ?p = "[1, 0, 0, 0, 0, 0, 7, 0] :: byte list"
  let ?as = "[\<lparr> at_offset = 0x30, at_non_resident = 0, at_value_field = Some (0x18, 4) \<rparr>,
        \<lparr> at_offset = 0x50, at_non_resident = 0, at_value_field = Some (0x18, 0x44) \<rparr>]"
  have len: "length ?p = 8" by simp
  have views: "parsed_filename_views (example_record 0 9 ?p ftype 0x61) ?as
     = [(\<lparr> fn_buf = example_value ?p ftype 0x61, fn_offset = 0, fn_filename_length = 1 \<rparr>,
         unat ftype)]" for ftype
    by (simp add: parsed_filename_views_def at_type_def example_record_reads[OF len]
          example_parse_short[OF len] example_parse_value[OF len])
  note at1 = example_attributes[OF len, of 0 9 1 "0x61"]
  note at2 = example_attributes[OF len, of 0 9 2 "0x61"]
  from filename_information_selection[OF at1]
  have w1: "filename_information 3 \<lparr> mr_buf = example_record 0 9 ?p 1 0x61, mr_offset = 0 \<rparr>
     = Some (Inr (Some \<lparr> fn_buf = example_value ?p 1 0x61, fn_offset = 0,
                          fn_filename_length = 1 \<rparr>))"
    by (simp add: views has_win32_view_def preferred_view_def)
  from filename_information_selection[OF at2]
  have w2: "filename_information 3 \<lparr> mr_buf = example_record 0 9 ?p 2 0x61, mr_offset = 0 \<rparr>
     = Some (Inr (Some \<lparr> fn_buf = example_value ?p 2 0x61, fn_offset = 0,
                          fn_filename_length = 1 \<rparr>))"
    by (simp add: views has_win32_view_def preferred_view_def)
  from at1 at2 views[of 1] views[of 2] w1 w2 show ?thesis by simp
qed

text \<open>
  Claim C8 as stated: without a Win32 view the last view that parsed is returned.
  In the example record without an end the view of the second attribute, of type
  DOS, parses; the walk then reads the DWORD at 0x400, past the end of the record,
  and \<open>filename_information\<close> raises OverrunBufferException.
\<close>

theorem filename_information_raises_counterexample:
  "MFTRecord unterminated_record 0 = Inr \<lparr> mr_buf = unterminated_record, mr_offset = 0 \<rparr>
   \<and> attributes 3 \<lparr> mr_buf = unterminated_record, mr_offset = 0 \<rparr> =
     ([\<lparr> at_offset = 0x30, at_non_resident = 0, at_value_field = Some (0x18, 4) \<rparr>,
       \<lparr> at_offset = 0x50, at_non_resident = 0, at_value_field = Some (0x18, 0x44) \<rparr>],
      Raised OverrunBuffer)
   \<and> parsed_filename_views unterminated_record
       [\<lparr> at_offset = 0x30, at_non_resident = 0, at_value_field = Some (0x18, 4) \<rparr>,
        \<lparr> at_offset = 0x50, at_non_resident = 0, at_value_field = Some (0x18, 0x44) \<rparr>]
     = [(\<lparr> fn_buf = example_value [5, 0, 0, 0, 0, 0, 1, 0] 2 0x61, fn_offset = 0,
            fn_filename_length = 1 \<rparr>, 2)]
   \<and> filename_information 3 \<lparr> mr_buf = unterminated_record, mr_offset = 0 \<rparr>
     = Some (Inl OverrunBuffer)"
  by (simp add: unterminated_record_MFTRecord unterminated_record_attributes
        parsed_filename_views_def filename_information_def at_type_def
        unterminated_record_reads unterminated_record_parse)

section \<open>Verification: path reconstruction\<close>



lemma build_path_no_parent_buf:
  assumes "mr_mft_record_number r = Inr n" and "n AND 0xFFFFFFFFFFFF \<noteq> 5"
    and "filename_information fuel r = Some (Inr (Some fn))"
    and "fn_mft_parent_reference fn = Inr parent_reference"
    and "mft_get_record_buf f (parent_reference AND 0xFFFFFFFFFFFF) = Inr []"
  shows "mft_record_build_path fuel f r cd =
     (case fn_filename fn of
        Inl e \<Rightarrow> Some (Inl e)
      | Inr name \<Rightarrow> Some (Inr (path_unknown_dir @ name)))"
  using assms by (subst mft_record_build_path.simps) simp

lemma build_path_root:
  assumes "mr_mft_record_number r = Inr n" and "n AND 0xFFFFFFFFFFFF = 5"
  shows "mft_record_build_path fuel f r cd =
     Some (Inr (if has_prefix f then prefix_of f else path_root))"
  using assms by (subst mft_record_build_path.simps) simp

text \<open>What \<open>mft_record_build_path\<close> returns does not depend on the fuel.\<close>

lemma build_path_stable:
  "mft_record_build_path fuel f r cd = Some v \<Longrightarrow>
   mft_record_build_path (fuel + k) f r cd = Some v"
proof (induction fuel f r cd arbitrary: v rule: mft_record_build_path.induct)
  case (1 fuel f rcd cycledetector)
  note bp1 = mft_record_build_path.simps[of fuel f rcd cycledetector]
  note bp2 = mft_record_build_path.simps[of "fuel + k" f rcd cycledetector]
  show ?case
  proof (cases "mr_mft_record_number rcd")
    case (Inl e)
    with "1.prems" show ?thesis
      by (simp add: bp1 bp2)
  next
    case n: (Inr n)
    show ?thesis
    proof (cases "n AND 0xFFFFFFFFFFFF = 5")
      case True
      with n "1.prems" show ?thesis
        by (simp add: bp1 bp2)
    next
      case n5: False
      show ?thesis
      proof (cases "filename_information fuel rcd")
        case None
        with n n5 "1.prems" show ?thesis
          by (simp add: bp1)
      next
        case (Some res)
        note fi = filename_information_stable[OF Some, of k]
        show ?thesis
        proof (cases res)
          case (Inl e)
          with n n5 Some fi "1.prems" show ?thesis
            by (simp add: bp1 bp2)
        next
          case (Inr fno)
          show ?thesis
          proof (cases fno)
            case None
            with n n5 Some Inr fi "1.prems" show ?thesis
              by (simp add: bp1 bp2)
          next
            case fn: (Some fn)
            show ?thesis
            proof (cases "fn_mft_parent_reference fn")
              case (Inl e)
              with n n5 Some Inr fn fi "1.prems" show ?thesis
                by (simp add: bp1 bp2)
            next
              case pr: (Inr pr)
              show ?thesis
              proof (cases "mft_get_record_buf f (pr AND 0xFFFFFFFFFFFF)")
                case (Inl e)
                with n n5 Some Inr fn pr fi "1.prems" show ?thesis
                  by (simp add: bp1 bp2)
              next
                case pb: (Inr pb)
                show ?thesis
                proof (cases "pb = []")
                  case True
                  with n n5 Some Inr fn pr pb fi "1.prems" show ?thesis
                    by (simp add: bp1 bp2)
                next
                  case ne: False
                  show ?thesis
                  proof (cases "MFTRecord pb 0")
                    case (Inl e)
                    with n n5 Some Inr fn pr pb ne fi "1.prems" show ?thesis
                      by (simp add: bp1 bp2)
                  next
                    case par: (Inr parent)
                    show ?thesis
                    proof (cases "mr_sequence_number parent")
                      case (Inl e)
                      with n n5 Some Inr fn pr pb ne par fi "1.prems" show ?thesis
                        by (simp add: bp1 bp2)
                    next
                      case sq: (Inr sq)
                      show ?thesis
                      proof (cases "sq \<noteq> drop_bit 48 pr \<or> n AND 0xFFFFFFFFFFFF \<in> cycledetector")
                        case True
                        with n n5 Some Inr fn pr pb ne par sq fi "1.prems" show ?thesis
                          by (auto simp: bp1 bp2)
                      next
                        case False
                        then have eq: "\<not> sq \<noteq> drop_bit 48 pr"
                          and nin: "n AND 0xFFFFFFFFFFFF \<notin> cycledetector" by auto
                        from "1.prems" n n5 Some Inr fn pr pb ne par sq eq nin
                        obtain w where w: "mft_record_build_path fuel f parent
                            (insert (n AND 0xFFFFFFFFFFFF) cycledetector) = Some w"
                          by (auto simp: bp1 split: option.splits sum.splits)
                        have ih: "mft_record_build_path (fuel + k) f parent
                            (insert (n AND 0xFFFFFFFFFFFF) cycledetector) = Some w"
                          using "1.IH"[OF n n5 Some Inr fn pr pb ne par sq eq nin w] .
                        from "1.prems" n n5 Some Inr fn pr pb ne par sq eq nin w ih fi
                        show ?thesis
                          by (simp add: bp1 bp2)
                      qed
                    qed
                  qed
                qed
              qed
            qed
          qed
        qed
      qed
    qed
  qed
qed
















lemma lone_length: "length (lone_record num) = 1024"
  by (simp add: lone_record_def example_lengths)

lemma lone_facts:
  "MFTRecord (lone_record num) 0 = Inr \<lparr> mr_buf = lone_record num, mr_offset = 0 \<rparr>"
  "mr_mft_record_number \<lparr> mr_buf = lone_record num, mr_offset = 0 \<rparr> = Inr (unat num)"
  "filename_information 3 \<lparr> mr_buf = lone_record num, mr_offset = 0 \<rparr> =
     Some (Inr (Some \<lparr> fn_buf = example_value [3, 0, 0, 0, 0, 0, 1, 0] 1 0x61, fn_offset = 0,
                     fn_filename_length = 1 \<rparr>))"
  by (simp_all add: lone_record_def example_MFTRecord mr_mft_record_number_def
        example_record_reads example_filename_information)

lemma lone_view:
  "fn_mft_parent_reference \<lparr> fn_buf = example_value [3, 0, 0, 0, 0, 0, 1, 0] 1 0x61,
       fn_offset = 0, fn_filename_length = 1 \<rparr> = Inr 0x1000000000003"
  "fn_filename \<lparr> fn_buf = example_value [3, 0, 0, 0, 0, 0, 1, 0] 1 0x61,
       fn_offset = 0, fn_filename_length = 1 \<rparr> = Inr [0x61]"
  by (simp_all del: One_nat_def add: fn_mft_parent_reference_def fn_filename_def example_value_reads)

lemma lone_bits: "(0x1000000000003 :: nat) AND 0xFFFFFFFFFFFF = 3"
  by simp

lemma lone_parent_buf: "mft_get_record_buf (lone_file num) 3 = Inr []"
  by (simp add: mft_get_record_buf_def lone_file_def lone_length)

text \<open>
  Claim C10 (amended). For every record other than record 5 whose FilenameAttribute
  is present, with a filename that reads, and whose parent record number (the low
  48 bits of the parent reference) resolves to an empty record buffer,
  \<open>mft_record_build_path\<close> returns \<open>path_unknown_dir\<close> (a backslash, two question
  marks and a backslash) followed by the filename; it raises nothing, where
  \<open>mft_get_record\<close> of that number raises InvalidMFTRecordNumber.
\<close>

theorem build_path_missing_parent:
  assumes "mr_mft_record_number r = Inr n" and "n AND 0xFFFFFFFFFFFF \<noteq> 5"
    and "filename_information fuel r = Some (Inr (Some fn))"
    and "fn_mft_parent_reference fn = Inr parent_reference"
    and "mft_get_record_buf f (parent_reference AND 0xFFFFFFFFFFFF) = Inr []"
    and "fn_filename fn = Inr name"
  shows "mft_record_build_path fuel f r cycledetector = Some (Inr (path_unknown_dir @ name))
   \<and> mft_get_record f (parent_reference AND 0xFFFFFFFFFFFF) =
       Inl (InvalidMFTRecordNumber (parent_reference AND 0xFFFFFFFFFFFF))"
  using assms by (simp add: build_path_no_parent_buf mft_get_record_def)

theorem build_path_missing_parent_witness:
  "mr_mft_record_number \<lparr> mr_buf = lone_record 6, mr_offset = 0 \<rparr> = Inr 6
   \<and> (6 :: nat) AND 0xFFFFFFFFFFFF \<noteq> 5
   \<and> filename_information 3 \<lparr> mr_buf = lone_record 6, mr_offset = 0 \<rparr> =
       Some (Inr (Some \<lparr> fn_buf = example_value [3, 0, 0, 0, 0, 0, 1, 0] 1 0x61, fn_offset = 0,
                       fn_filename_length = 1 \<rparr>))
   \<and> mft_get_record_buf (lone_file 6) ((0x1000000000003 :: nat) AND 0xFFFFFFFFFFFF) = Inr []
   \<and> mft_record_build_path 3 (lone_file 6) \<lparr> mr_buf = lone_record 6, mr_offset = 0 \<rparr> {}
       = Some (Inr (path_unknown_dir @ [0x61]))"
proof -
  have n: "mr_mft_record_number \<lparr> mr_buf = lone_record 6, mr_offset = 0 \<rparr> = Inr 6"
    using lone_facts(2) [of 6] by simp
  have n5: "(6 :: nat) AND 0xFFFFFFFFFFFF \<noteq> 5" by simp
  have pb: "mft_get_record_buf (lone_file 6) ((0x1000000000003 :: nat) AND 0xFFFFFFFFFFFF) = Inr []"
    by (simp only: lone_bits lone_parent_buf)
  from build_path_missing_parent [OF n n5 lone_facts(3) lone_view(1) pb lone_view(2), of "{}"]
  have "mft_record_build_path 3 (lone_file 6) \<lparr> mr_buf = lone_record 6, mr_offset = 0 \<rparr> {}
       = Some (Inr (path_unknown_dir @ [0x61]))"
    by simp
  with n n5 pb lone_facts(3) [of 6] show ?thesis by blast
qed

text \<open>
  Claim C10 as stated: record 5 is answered before its FilenameAttribute is looked
  at. In the one-record file the record, given the number 5, has a FilenameAttribute
  named \<open>a\<close> whose parent, record 3, is beyond the end of the file, and its path
  is \<open>path_root\<close> (a backslash and a dot).
\<close>

theorem build_path_missing_parent_counterexample:
  "MFTRecord (lone_record 5) 0 = Inr \<lparr> mr_buf = lone_record 5, mr_offset = 0 \<rparr>
   \<and> filename_information 3 \<lparr> mr_buf = lone_record 5, mr_offset = 0 \<rparr> =
       Some (Inr (Some \<lparr> fn_buf = example_value [3, 0, 0, 0, 0, 0, 1, 0] 1 0x61, fn_offset = 0,
                       fn_filename_length = 1 \<rparr>))
   \<and> fn_mft_parent_reference \<lparr> fn_buf = example_value [3, 0, 0, 0, 0, 0, 1, 0] 1 0x61,
       fn_offset = 0, fn_filename_length = 1 \<rparr> = Inr 0x1000000000003
   \<and> mft_get_record_buf (lone_file 5) ((0x1000000000003 :: nat) AND 0xFFFFFFFFFFFF) = Inr []
   \<and> fn_filename \<lparr> fn_buf = example_value [3, 0, 0, 0, 0, 0, 1, 0] 1 0x61,
       fn_offset = 0, fn_filename_length = 1 \<rparr> = Inr [0x61]
   \<and> mft_record_build_path 3 (lone_file 5) \<lparr> mr_buf = lone_record 5, mr_offset = 0 \<rparr> {}
       = Some (Inr path_root)
   \<and> path_root \<noteq> path_unknown_dir @ [0x61]"
proof -
  have n: "mr_mft_record_number \<lparr> mr_buf = lone_record 5, mr_offset = 0 \<rparr> = Inr 5"
    using lone_facts(2) [of 5] by simp
  have n5: "(5 :: nat) AND 0xFFFFFFFFFFFF = 5" by simp
  have pb: "mft_get_record_buf (lone_file 5) ((0x1000000000003 :: nat) AND 0xFFFFFFFFFFFF) = Inr []"
    by (simp only: lone_bits lone_parent_buf)
  have np: "\<not> has_prefix (lone_file 5)" by (simp add: has_prefix_def lone_file_def)
  have r: "mft_record_build_path 3 (lone_file 5) \<lparr> mr_buf = lone_record 5, mr_offset = 0 \<rparr> {}
       = Some (Inr path_root)"
    using build_path_root [OF n n5, of 3 "lone_file 5" "{}"] np by simp
  have d: "path_root \<noteq> path_unknown_dir @ [0x61]"
    by (simp add: path_root_def path_unknown_dir_def ustr_def)
  from lone_facts(1) [of 5] lone_facts(3) [of 5] lone_view pb r d show ?thesis by blast
qed

section \<open>Verification: live index entries\<close>

lemma IndexEntry_offset: "IndexEntry buf off = Inr e \<Longrightarrow> ie_offset e = off"
  by (auto simp: IndexEntry_def split: sum.splits)

lemma index_entries_loop_cases:
  assumes "index_entries_loop fuel buf n off = (es, r)"
  shows "(es = [] \<and> (r = Finished \<longrightarrow>
            (\<exists>lim. nh_entry_list_end buf n = Inr lim \<and> \<not> int off \<le> int lim - 0x52)))
       \<or> (\<exists>k e es' lim len.
             fuel = Suc k \<and> es = e # es' \<and>
             nh_entry_list_end buf n = Inr lim \<and> int off \<le> int lim - 0x52 \<and>
             IndexEntry buf (nh_offset n + off) = Inr e \<and> ie_length buf e = Inr len \<and>
             index_entries_loop k buf n (off + len) = (es', r))"
  using assms
  by (cases fuel) (auto split: sum.splits if_splits prod.splits)

lemma index_entries_loop_walk:
  "index_entries_loop fuel buf n off = (es, r) \<Longrightarrow>
   (\<forall>i<length es.
       ie_offset (es ! i) = nh_offset n + (off + sum_list (map (length_of buf) (take i es))) \<and>
       IndexEntry buf (ie_offset (es ! i)) = Inr (es ! i) \<and>
       (\<exists>lim. nh_entry_list_end buf n = Inr lim \<and>
          int (off + sum_list (map (length_of buf) (take i es))) \<le> int lim - 0x52)) \<and>
   (r = Finished \<longrightarrow>
      (\<exists>lim. nh_entry_list_end buf n = Inr lim \<and>
         \<not> int (off + sum_list (map (length_of buf) es)) \<le> int lim - 0x52))"
proof (induction es arbitrary: fuel off)
  case Nil
  from index_entries_loop_cases[OF Nil.prems] show ?case by simp
next
  case (Cons e es)
  from index_entries_loop_cases[OF Cons.prems] obtain k lim len where
    lim: "nh_entry_list_end buf n = Inr lim" and le: "int off \<le> int lim - 0x52" and
    e: "IndexEntry buf (nh_offset n + off) = Inr e" and len: "ie_length buf e = Inr len" and
    rest: "index_entries_loop k buf n (off + len) = (es, r)"
    by auto
  note ih = Cons.IH[OF rest]
  have eo: "ie_offset e = nh_offset n + off" by (rule IndexEntry_offset[OF e])
  have lo: "length_of buf e = len" using len by (simp add: length_of_def)
  have ihj: "ie_offset (es ! j) = nh_offset n + (off + len + sum_list (map (length_of buf) (take j es))) \<and>
       IndexEntry buf (ie_offset (es ! j)) = Inr (es ! j) \<and>
       (\<exists>lim. nh_entry_list_end buf n = Inr lim \<and>
          int (off + len + sum_list (map (length_of buf) (take j es))) \<le> int lim - 0x52)"
    if "j < length es" for j using ih that by blast
  show ?case
  proof (intro conjI allI impI)
    fix i assume i: "i < length (e # es)"
    show "ie_offset ((e # es) ! i) =
        nh_offset n + (off + sum_list (map (length_of buf) (take i (e # es))))"
    proof (cases i)
      case 0 then show ?thesis using eo by simp
    next
      case (Suc j)
      with i have "j < length es" by simp
      from ihj[OF this] Suc show ?thesis by (simp add: lo)
    qed
    show "IndexEntry buf (ie_offset ((e # es) ! i)) = Inr ((e # es) ! i)"
    proof (cases i)
      case 0 then show ?thesis using eo e by simp
    next
      case (Suc j)
      with i have "j < length es" by simp
      from ihj[OF this] have "IndexEntry buf (ie_offset (es ! j)) = Inr (es ! j)" by blast
      with Suc show ?thesis by simp
    qed
    show "\<exists>lim. nh_entry_list_end buf n = Inr lim \<and>
          int (off + sum_list (map (length_of buf) (take i (e # es)))) \<le> int lim - 0x52"
    proof (cases i)
      case 0 then show ?thesis using lim le by simp
    next
      case (Suc j)
      with i have "j < length es" by simp
      from ihj[OF this] have "\<exists>lim. nh_entry_list_end buf n = Inr lim \<and>
          int (off + len + sum_list (map (length_of buf) (take j es))) \<le> int lim - 0x52" by blast
      with Suc show ?thesis by (simp add: lo add.assoc)
    qed
  next
    assume "r = Finished"
    with ih show "\<exists>lim. nh_entry_list_end buf n = Inr lim \<and>
         \<not> int (off + sum_list (map (length_of buf) (e # es))) \<le> int lim - 0x52"
      by (simp add: lo add.assoc)
  qed
qed


lemma long_entry_node_reads:
  "length long_entry_node = 98"
  "unpack_dword long_entry_node 0 = Inr 0x10"
  "unpack_dword long_entry_node 4 = Inr 0x62"
  "unpack_dword long_entry_node 8 = Inr 0x62"
  "unpack_word long_entry_node 0x1A = Inr 0"
  "unpack_word long_entry_node 0x18 = Inr 0x1000"
  by (simp_all add: unpack_word_nth unpack_dword_nth long_entry_node_def nth_append)

lemma long_entry_node_header:
  "NTATTR_STANDARD_INDEX_HEADER long_entry_node 0 = Inr \<lparr> nh_offset = 0 \<rparr>"
  by (simp add: NTATTR_STANDARD_INDEX_HEADER_def long_entry_node_reads)

lemma long_entry_node_entries:
  "index_entries 2 long_entry_node \<lparr> nh_offset = 0 \<rparr> =
     ([\<lparr> ie_offset = 0x10, ie_filename_information_length = 0 \<rparr>], Finished)"
  by (simp add: index_entries_def nh_entry_list_start_def nh_entry_list_end_def numeral_2_eq_2
        IndexEntry_def ie_length_def long_entry_node_reads)

text \<open>
  Claim C6 (amended). The live entries are read one after the other from
  \<open>entry_list_start\<close> (none if it is 0): every yielded entry sits at the cursor,
  which has advanced by the declared length of each entry before it and is at most
  \<open>entry_list_end - 0x52\<close>; when the loop ends, the cursor is beyond that bound.
  This holds for every number of iterations the generator is run for.
\<close>

theorem index_entries_walk:
  assumes "index_entries fuel buf n = (es, r)" and "nh_entry_list_start buf n = Inr start"
  shows "(\<forall>i<length es.
       ie_offset (es ! i) = nh_offset n + (start + sum_list (map (length_of buf) (take i es))) \<and>
       IndexEntry buf (ie_offset (es ! i)) = Inr (es ! i) \<and>
       (\<exists>entry_list_end. nh_entry_list_end buf n = Inr entry_list_end \<and>
          int (start + sum_list (map (length_of buf) (take i es))) \<le> int entry_list_end - 0x52)) \<and>
   (r = Finished \<and> start \<noteq> 0 \<longrightarrow>
      (\<exists>entry_list_end. nh_entry_list_end buf n = Inr entry_list_end \<and>
         \<not> int (start + sum_list (map (length_of buf) es)) \<le> int entry_list_end - 0x52))"
proof (cases "start = 0")
  case True
  with assms have "es = []" by (simp add: index_entries_def)
  with True show ?thesis by simp
next
  case False
  with assms have "index_entries_loop fuel buf n start = (es, r)"
    by (simp add: index_entries_def)
  from index_entries_loop_walk[OF this] show ?thesis by blast
qed

theorem index_entries_walk_witness:
  "index_entries 2 long_entry_node \<lparr> nh_offset = 0 \<rparr> =
     ([\<lparr> ie_offset = 0x10, ie_filename_information_length = 0 \<rparr>], Finished)
   \<and> nh_entry_list_start long_entry_node \<lparr> nh_offset = 0 \<rparr> = Inr 0x10
   \<and> (\<exists>entry_list_end. nh_entry_list_end long_entry_node \<lparr> nh_offset = 0 \<rparr> = Inr entry_list_end
          \<and> int 0x10 \<le> int entry_list_end - 0x52)"
proof -
  have st: "nh_entry_list_start long_entry_node \<lparr> nh_offset = 0 \<rparr> = Inr 0x10"
    by (simp add: nh_entry_list_start_def long_entry_node_reads)
  from index_entries_walk [OF long_entry_node_entries st, THEN conjunct1, rule_format, of 0]
  have "\<exists>entry_list_end. nh_entry_list_end long_entry_node \<lparr> nh_offset = 0 \<rparr> = Inr entry_list_end
          \<and> int 0x10 \<le> int entry_list_end - 0x52"
    by simp
  with long_entry_node_entries st show ?thesis by blast
qed

text \<open>
  Claim C6 as stated: nothing compares the declared length of an entry with
  \<open>entry_list_end\<close>. In the 98-byte node the entry at 0x10 is yielded, its length
  is 0x1000 and \<open>entry_list_end\<close> is 0x62.
\<close>

theorem index_entries_bound_counterexample:
  "NTATTR_STANDARD_INDEX_HEADER long_entry_node 0 = Inr \<lparr> nh_offset = 0 \<rparr>
   \<and> index_entries 2 long_entry_node \<lparr> nh_offset = 0 \<rparr> =
     ([\<lparr> ie_offset = 0x10, ie_filename_information_length = 0 \<rparr>], Finished)
   \<and> ie_length long_entry_node \<lparr> ie_offset = 0x10, ie_filename_information_length = 0 \<rparr>
       = Inr 0x1000
   \<and> nh_entry_list_end long_entry_node \<lparr> nh_offset = 0 \<rparr> = Inr 0x62
   \<and> \<not> ((0x10 :: nat) + 0x1000 \<le> 0x62)"
  by (simp add: long_entry_node_header long_entry_node_entries ie_length_def
        nh_entry_list_end_def long_entry_node_reads)

section \<open>Verification: the slack scan\<close>




lemma py_and_True: "py_and a b = Inr True \<Longrightarrow> a = Inr True \<and> b = Inr True"
  by (auto simp: py_and_def split: sum.splits if_splits)


lemma after_True: "after bound t = Inr True \<Longrightarrow> \<exists>d. t = Inr d \<and> bound < d"
  by (auto simp: after_def split: sum.splits)

lemma before_True: "before bound t = Inr True \<Longrightarrow> \<exists>d. t = Inr d \<and> d < bound"
  by (auto simp: before_def split: sum.splits)



lemma timestamps_in_window_True:
  assumes "timestamps_in_window conv fn = Inr True"
  shows "\<exists>c m ch a.
      fn_created_time conv fn = Inr c \<and> fn_modified_time conv fn = Inr m \<and>
      fn_changed_time conv fn = Inr ch \<and> fn_accessed_time conv fn = Inr a \<and>
      recent_date < c \<and> c < future_date \<and> recent_date < m \<and> m < future_date \<and>
      recent_date < ch \<and> ch < future_date \<and> recent_date < a \<and> a < future_date"
proof -
  note t = assms[unfolded timestamps_in_window_def]
  from py_and_True[OF t] have 1: "after recent_date (fn_modified_time conv fn) = Inr True"
    and r1: "py_and (after recent_date (fn_accessed_time conv fn))
    (py_and (after recent_date (fn_changed_time conv fn))
    (py_and (after recent_date (fn_created_time conv fn))
    (py_and (before future_date (fn_modified_time conv fn))
    (py_and (before future_date (fn_accessed_time conv fn))
    (py_and (before future_date (fn_changed_time conv fn))
            (before future_date (fn_created_time conv fn))))))) = Inr True" by blast+
  from py_and_True[OF r1] have 2: "after recent_date (fn_accessed_time conv fn) = Inr True"
    and r2: "py_and (after recent_date (fn_changed_time conv fn))
    (py_and (after recent_date (fn_created_time conv fn))
    (py_and (before future_date (fn_modified_time conv fn))
    (py_and (before future_date (fn_accessed_time conv fn))
    (py_and (before future_date (fn_changed_time conv fn))
            (before future_date (fn_created_time conv fn)))))) = Inr True" by blast+
  from py_and_True[OF r2] have 3: "after recent_date (fn_changed_time conv fn) = Inr True"
    and r3: "py_and (after recent_date (fn_created_time conv fn))
    (py_and (before future_date (fn_modified_time conv fn))
    (py_and (before future_date (fn_accessed_time conv fn))
    (py_and (before future_date (fn_changed_time conv fn))
            (before future_date (fn_created_time conv fn))))) = Inr True" by blast+
  from py_and_True[OF r3] have 4: "after recent_date (fn_created_time conv fn) = Inr True"
    and r4: "py_and (before future_date (fn_modified_time conv fn))
    (py_and (before future_date (fn_accessed_time conv fn))
    (py_and (before future_date (fn_changed_time conv fn))
            (before future_date (fn_created_time conv fn)))) = Inr True" by blast+
  from py_and_True[OF r4] have 5: "before future_date (fn_modified_time conv fn) = Inr True"
    and r5: "py_and (before future_date (fn_accessed_time conv fn))
    (py_and (before future_date (fn_changed_time conv fn))
            (before future_date (fn_created_time conv fn))) = Inr True" by blast+
  from py_and_True[OF r5] have 6: "before future_date (fn_accessed_time conv fn) = Inr True"
    and r6: "py_and (before future_date (fn_changed_time conv fn))
            (before future_date (fn_created_time conv fn)) = Inr True" by blast+
  from py_and_True[OF r6] have 7: "before future_date (fn_changed_time conv fn) = Inr True"
    and 8: "before future_date (fn_created_time conv fn) = Inr True" by blast+
  from after_True[OF 1] before_True[OF 5] after_True[OF 2] before_True[OF 6]
       after_True[OF 3] before_True[OF 7] after_True[OF 4] before_True[OF 8]
  show ?thesis by auto
qed



lemma is_valid_True:
  assumes "is_valid conv buf e = Inr True"
  shows "\<exists>fn c m ch a.
      FilenameAttribute buf (ie_offset e + 0x10) = Inr fn \<and>
      fn_created_time conv fn = Inr c \<and> fn_modified_time conv fn = Inr m \<and>
      fn_changed_time conv fn = Inr ch \<and> fn_accessed_time conv fn = Inr a \<and>
      recent_date < c \<and> c < future_date \<and> recent_date < m \<and> m < future_date \<and>
      recent_date < ch \<and> ch < future_date \<and> recent_date < a \<and> a < future_date"
proof -
  from assms obtain fn where fn: "FilenameAttribute buf (ie_offset e + 0x10) = Inr fn"
    and w: "timestamps_in_window conv fn = Inr True"
    by (auto simp: is_valid_def ie_filename_information_def
             split: sum.splits if_splits error.splits)
  from timestamps_in_window_True[OF w] fn show ?thesis by blast
qed



lemma slack_candidate_Inr:
  "slack_candidate conv buf off = Inr (e, off') \<Longrightarrow>
   IndexEntry buf off = Inr e \<and> is_valid conv buf e = Inr True \<and>
   (\<exists>len. ie_length buf e = Inr len \<and> off' = off + max len 1)"
  by (auto simp: slack_candidate_def split: sum.splits if_splits)


lemma slack_turn_Yield:
  "slack_turn ovp conv buf n off = Yield e off' \<Longrightarrow>
   slack_candidate conv buf off = Inr (e, off') \<and>
   (\<exists>a. nh_entry_list_allocation_end buf n = Inr a \<and> int off \<le> int a - 0x52)"
  by (auto simp: slack_turn_def split: sum.splits if_splits prod.splits)



lemma slack_loop_cases:
  assumes "slack_loop ovp conv buf n off = (ys, r, cs)"
  shows "(slack_turn ovp conv buf n off = Leave \<and> ys = [] \<and> r = None \<and> cs = [])
       \<or> (\<exists>err. slack_turn ovp conv buf n off = Raise err \<and> ys = [] \<and> r = Some err \<and> cs = [off])
       \<or> (\<exists>e off' ys' cs'. slack_turn ovp conv buf n off = Yield e off' \<and>
             slack_loop ovp conv buf n off' = (ys', r, cs') \<and> ys = e # ys' \<and> cs = off # cs')
       \<or> (\<exists>off' cs'. slack_turn ovp conv buf n off = Skip off' \<and>
             slack_loop ovp conv buf n off' = (ys, r, cs') \<and> cs = off # cs')"
  using assms
  by (subst (asm) slack_loop.simps) (auto split: turn.splits prod.splits)


lemma slack_loop_valid:
  "slack_loop ovp conv buf n off = (ys, r, cs) \<Longrightarrow> e \<in> set ys \<Longrightarrow>
   is_valid conv buf e = Inr True \<and> IndexEntry buf (ie_offset e) = Inr e \<and> ie_offset e \<in> set cs"
proof (induction ovp conv buf n off arbitrary: ys r cs rule: slack_loop.induct)
  case (1 ovp conv buf n off)
  from slack_loop_cases[OF "1.prems"(1)] show ?case
  proof (elim disjE exE conjE)
    fix e' off' ys' cs'
    assume t: "slack_turn ovp conv buf n off = Yield e' off'"
      and rest: "slack_loop ovp conv buf n off' = (ys', r, cs')"
      and ys: "ys = e' # ys'" and cs: "cs = off # cs'"
    show ?thesis
    proof (cases "e = e'")
      case True
      from slack_turn_Yield[OF t] have c: "slack_candidate conv buf off = Inr (e', off')" by simp
      from slack_candidate_Inr[OF c] have "IndexEntry buf off = Inr e'"
        "is_valid conv buf e' = Inr True" by simp_all
      moreover from this(1) have "ie_offset e' = off" by (auto simp: IndexEntry_def split: sum.splits)
      ultimately show ?thesis using True cs by simp
    next
      case False
      with ys "1.prems"(2) have "e \<in> set ys'" by simp
      from "1.IH"(1)[OF t rest this] cs show ?thesis by simp
    qed
  next
    fix off' cs'
    assume t: "slack_turn ovp conv buf n off = Skip off'"
      and rest: "slack_loop ovp conv buf n off' = (ys, r, cs')" and cs: "cs = off # cs'"
    from "1.IH"(2)[OF t rest "1.prems"(2)] cs show ?thesis by simp
  qed (use "1.prems"(2) in auto)
qed



lemma unpack_qword_nth:
  "unpack_qword buf off =
     (if off + 8 \<le> length buf
      then Inr (unat (buf ! off) + 256 * (unat (buf ! (off + 1))
             + 256 * (unat (buf ! (off + 2)) + 256 * (unat (buf ! (off + 3))
             + 256 * (unat (buf ! (off + 4)) + 256 * (unat (buf ! (off + 5))
             + 256 * (unat (buf ! (off + 6)) + 256 * unat (buf ! (off + 7)))))))))
      else Inl OverrunBuffer)"
  by (simp add: unpack_qword_def unpack_le_def unpack_binary_def take_drop_nth8)

lemma slack_node_length: "length slack_node = 104"
  by (simp add: slack_node_def)

lemma slack_node_reads:
  "unpack_dword slack_node 0 = Inr 0x10"
  "unpack_dword slack_node 4 = Inr 0x0F"
  "unpack_dword slack_node 8 = Inr 0x68"
  "unpack_word slack_node 0x19 = Inr 0x4400"
  "unpack_word slack_node 0x1A = Inr 0x44"
  "unpack_word slack_node 0x18 = Inr 0x58"
  "unpack_byte slack_node 0x5F = Inr 0"
  "unpack_byte slack_node 0x60 = Inr 1"
  "unpack_qword slack_node 0x2F = Inr 0xCA8A755C6E000001"
  "unpack_qword slack_node 0x28 = Inr 0x01CA8A755C6E0000"
  "unpack_qword slack_node 0x30 = Inr 0x01CA8A755C6E0000"
  "unpack_qword slack_node 0x38 = Inr 0x01CA8A755C6E0000"
  "unpack_qword slack_node 0x40 = Inr 0x01CA8A755C6E0000"
  by (simp_all add: unpack_byte_nth unpack_word_nth unpack_dword_nth unpack_qword_nth
        slack_node_length)
     (simp_all add: slack_node_def nth_append)

lemma slack_node_conv:
  "filetime_to_datetime 0xCA8A755C6E000001 = None"
  "filetime_to_datetime 0x01CA8A755C6E0000 = Some 63397900800000000"
  by (simp_all add: filetime_to_datetime_def Let_def)

lemma slack_node_header:
  "NTATTR_STANDARD_INDEX_HEADER slack_node 0 = Inr \<lparr> nh_offset = 0 \<rparr>"
  by (simp add: NTATTR_STANDARD_INDEX_HEADER_def slack_node_reads)

lemma slack_node_invalid:
  "is_valid filetime_to_datetime slack_node
     \<lparr> ie_offset = 0x0F, ie_filename_information_length = 0x4400 \<rparr> = Inr False"
  by (simp add: is_valid_def ie_filename_information_def FilenameAttribute_def fn_len_def
        timestamps_in_window_def py_and_def after_def before_def fn_modified_time_def
        unpack_filetime_def slack_node_reads slack_node_conv)

lemma slack_node_valid:
  "is_valid filetime_to_datetime slack_node
     \<lparr> ie_offset = 0x10, ie_filename_information_length = 0x44 \<rparr> = Inr True"
  using slack_node_reads(8)
  by (simp add: is_valid_def ie_filename_information_def FilenameAttribute_def fn_len_def
        timestamps_in_window_def py_and_def after_def before_def
        fn_modified_time_def fn_created_time_def fn_changed_time_def fn_accessed_time_def
        unpack_filetime_def slack_node_reads(1-7,9-13) slack_node_conv
        recent_date_def future_date_def)

lemma slack_node_turns:
  "slack_turn ovp filetime_to_datetime slack_node \<lparr> nh_offset = 0 \<rparr> 0x0F = Skip 0x10"
  "slack_turn ovp filetime_to_datetime slack_node \<lparr> nh_offset = 0 \<rparr> 0x10 =
     Yield \<lparr> ie_offset = 0x10, ie_filename_information_length = 0x44 \<rparr> 0x68"
  "slack_turn ovp filetime_to_datetime slack_node \<lparr> nh_offset = 0 \<rparr> 0x68 = Leave"
  by (simp_all add: slack_turn_def nh_entry_list_allocation_end_def slack_candidate_def
        IndexEntry_def ie_length_def slack_node_reads slack_node_invalid slack_node_valid
        inner_handler_def)

lemma slack_node_run:
  "slack_run ovp filetime_to_datetime slack_node \<lparr> nh_offset = 0 \<rparr> =
     ([\<lparr> ie_offset = 0x10, ie_filename_information_length = 0x44 \<rparr>], None, [0x0F, 0x10])"
proof -
  let ?n = "\<lparr> nh_offset = 0 \<rparr>"
  have 3: "slack_loop ovp filetime_to_datetime slack_node ?n 0x68 = ([], None, [])"
    by (subst slack_loop.simps) (simp add: slack_node_turns)
  have 2: "slack_loop ovp filetime_to_datetime slack_node ?n 0x10 =
     ([\<lparr> ie_offset = 0x10, ie_filename_information_length = 0x44 \<rparr>], None, [0x10])"
    by (subst slack_loop.simps) (simp add: slack_node_turns 3)
  have 1: "slack_loop ovp filetime_to_datetime slack_node ?n 0x0F =
     ([\<lparr> ie_offset = 0x10, ie_filename_information_length = 0x44 \<rparr>], None, [0x0F, 0x10])"
    by (subst slack_loop.simps) (simp add: slack_node_turns 2)
  then show ?thesis by (simp add: slack_run_def nh_entry_list_end_def slack_node_reads)
qed




text \<open>
  Claim C3. Every entry yielded by the slack scan is one whose embedded
  FilenameAttribute parses and whose four timestamps convert without error and lie
  strictly between 1990-01-01 and 2025-01-01, whatever the conversion of BinaryParser
  is and whichever handler receives a read overrun.
\<close>

theorem slack_entries_plausible:
  assumes "slack_entries overrun_is_parse conv buf n = (ys, r)" and "e \<in> set ys"
  shows "\<exists>fn created modified changed accessed.
      FilenameAttribute buf (ie_offset e + 0x10) = Inr fn \<and>
      fn_created_time conv fn = Inr created \<and> fn_modified_time conv fn = Inr modified \<and>
      fn_changed_time conv fn = Inr changed \<and> fn_accessed_time conv fn = Inr accessed \<and>
      recent_date < created \<and> created < future_date \<and>
      recent_date < modified \<and> modified < future_date \<and>
      recent_date < changed \<and> changed < future_date \<and>
      recent_date < accessed \<and> accessed < future_date"
proof -
  from assms(1) obtain cs off where "slack_loop overrun_is_parse conv buf n off = (ys, r, cs)"
    using assms(2)
    by (auto simp: slack_entries_def slack_run_def split: sum.splits prod.splits)
  from slack_loop_valid[OF this assms(2)] have "is_valid conv buf e = Inr True" by simp
  then show ?thesis by (rule is_valid_True)
qed

theorem slack_entries_plausible_witness:
  "slack_entries False filetime_to_datetime slack_node \<lparr> nh_offset = 0 \<rparr> =
     ([\<lparr> ie_offset = 0x10, ie_filename_information_length = 0x44 \<rparr>], None)
   \<and> (\<exists>fn created modified changed accessed.
        FilenameAttribute slack_node 0x20 = Inr fn \<and>
        fn_created_time filetime_to_datetime fn = Inr created \<and>
        fn_modified_time filetime_to_datetime fn = Inr modified \<and>
        fn_changed_time filetime_to_datetime fn = Inr changed \<and>
        fn_accessed_time filetime_to_datetime fn = Inr accessed \<and>
        recent_date < created \<and> created < future_date \<and>
        recent_date < modified \<and> modified < future_date \<and>
        recent_date < changed \<and> changed < future_date \<and>
        recent_date < accessed \<and> accessed < future_date)"
proof -
  have run: "slack_entries False filetime_to_datetime slack_node \<lparr> nh_offset = 0 \<rparr> =
     ([\<lparr> ie_offset = 0x10, ie_filename_information_length = 0x44 \<rparr>], None)"
    by (simp add: slack_entries_def slack_node_run)
  from slack_entries_plausible [OF run,
      of "\<lparr> ie_offset = 0x10, ie_filename_information_length = 0x44 \<rparr>"]
  show ?thesis using run by simp
qed















end
